theory Spec2Isabelle
  imports Main "HOL-Library.Word" "HOL-Library.Monad_Syntax"
begin

section \<open>Strings\<close>

text \<open>
  Go strings are byte sequences; they are modelled as \<open>string\<close> (a list of 8-bit
  characters).  The functions of this section model the parts of Go's \<open>strings\<close>,
  \<open>strconv\<close> and \<open>fmt\<close> packages the program calls.  Case mapping and white space
  are the ASCII ones: on bytes outside ASCII the model leaves the text unchanged.
\<close>

definition toLowerByte :: "char \<Rightarrow> char" where
  "toLowerByte c =
     (let n = (of_char c :: int) in if 65 \<le> n \<and> n \<le> 90 then char_of (n + 32) else c)"

definition ToLower :: "string \<Rightarrow> string" where
  "ToLower s = map toLowerByte s"

definition HasPrefix :: "string \<Rightarrow> string \<Rightarrow> bool" where
  "HasPrefix s pre = (length pre \<le> length s \<and> take (length pre) s = pre)"

fun Contains :: "string \<Rightarrow> string \<Rightarrow> bool" where
  "Contains [] substr = (substr = [])"
| "Contains (c # t) substr = (HasPrefix (c # t) substr \<or> Contains t substr)"

text \<open>\<open>strings.IndexByte\<close> and \<open>strings.Index\<close>: the first position, or \<open>-1\<close>.\<close>

fun IndexByte :: "string \<Rightarrow> char \<Rightarrow> int" where
  "IndexByte [] c = -1"
| "IndexByte (x # xs) c =
     (if x = c then 0 else (let i = IndexByte xs c in if i = -1 then -1 else i + 1))"

fun Index :: "string \<Rightarrow> string \<Rightarrow> int" where
  "Index [] substr = (if substr = [] then 0 else -1)"
| "Index (c # t) substr =
     (if HasPrefix (c # t) substr then 0
      else (let i = Index t substr in if i = -1 then -1 else i + 1))"

definition isSpaceByte :: "char \<Rightarrow> bool" where
  "isSpaceByte c = (c \<in> set [CHR 0x09, CHR 0x0A, CHR 0x0B, CHR 0x0C, CHR 0x0D, CHR '' ''])"

definition TrimSpace :: "string \<Rightarrow> string" where
  "TrimSpace s = rev (dropWhile isSpaceByte (rev (dropWhile isSpaceByte s)))"

text \<open>\<open>fmt.Sprintf("%d", i)\<close>: the decimal rendering of an integer.\<close>

definition digitChar :: "int \<Rightarrow> char" where
  "digitChar d = char_of (48 + d)"

function decimal :: "int \<Rightarrow> string" where
  "decimal n = (if n < 10 then [digitChar n] else decimal (n div 10) @ [digitChar (n mod 10)])"
  by pat_completeness auto
termination
  by (relation "measure nat") auto

declare decimal.simps [simp del]

definition Sprintf_d :: "int \<Rightarrow> string" where
  "Sprintf_d i = (if i < 0 then CHR ''-'' # decimal (- i) else decimal i)"

text \<open>
  \<open>strconv.ParseUint(s, 10, bitSize)\<close>: a non-empty run of decimal digits whose value
  fits \<open>bitSize\<close> bits; anything else is an error (\<open>None\<close>).
\<close>

definition isDigit :: "char \<Rightarrow> bool" where
  "isDigit c = (48 \<le> (of_char c :: int) \<and> (of_char c :: int) \<le> 57)"

definition digitsValue :: "string \<Rightarrow> int" where
  "digitsValue s = foldl (\<lambda>a c. a * 10 + (of_char c - 48)) 0 s"

definition ParseUint :: "string \<Rightarrow> nat \<Rightarrow> int option" where
  "ParseUint s bitSize =
     (if s = [] \<or> \<not> list_all isDigit s then None
      else if digitsValue s < 2 ^ bitSize then Some (digitsValue s) else None)"

section \<open>Log entries\<close>

text \<open>
  \<open>LogEntry\<close> of package \<open>stream\<close>.  The type of the field \<open>Time\<close> is a parameter:
  the stream revisions under \<open>src/\<close> declare it \<open>time.Time\<close>, the later filter
  revision reads it as a string.
\<close>

record 't LogEntry =
  Action :: string
  Direction :: string
  Interface :: string
  Label :: string
  Reason :: string
  Time :: 't
  Dst :: string
  IPVersion :: "8 word"
  ProtoName :: string
  Src :: string
  DstPort :: "16 word"
  SrcPort :: "16 word"

section \<open>Filter expressions\<close>

subsection \<open>Tokens and the lexer\<close>

datatype tokenTyp =
  tokenAnd | tokenEOF | tokenField | tokenNot | tokenOr | tokenParenL | tokenParenR | tokenValue

datatype fieldTyp =
  fieldAction | fieldDestination | fieldDirection | fieldDstPort | fieldIPVersion
  | fieldInterface | fieldPort | fieldProtocol | fieldReason | fieldSource | fieldSrcPort

definition tokens :: "(string \<times> tokenTyp) list" where
  "tokens =
     [(''and'', tokenAnd), (''&&'', tokenAnd),
      (''not'', tokenNot), (''!'', tokenNot),
      (''or'', tokenOr), (''||'', tokenOr)]"

text \<open>The map \<open>fields\<close> of the source; the name \<open>fields\<close> belongs to the record package.\<close>

definition fieldNames :: "(string \<times> fieldTyp) list" where
  "fieldNames =
     [(''action'', fieldAction),
      (''direction'', fieldDirection), (''dir'', fieldDirection),
      (''destination'', fieldDestination), (''dest'', fieldDestination),
      (''dst'', fieldDestination),
      (''dstport'', fieldDstPort), (''dport'', fieldDstPort),
      (''ipversion'', fieldIPVersion), (''ip'', fieldIPVersion), (''ipver'', fieldIPVersion),
      (''interface'', fieldInterface), (''iface'', fieldInterface),
      (''port'', fieldPort),
      (''protocol'', fieldProtocol), (''proto'', fieldProtocol),
      (''reason'', fieldReason),
      (''source'', fieldSource), (''src'', fieldSource),
      (''srcport'', fieldSrcPort), (''sport'', fieldSrcPort)]"

text \<open>The fields \<open>typ\<close> and \<open>value\<close> of the source's \<open>token\<close> carry the prefix \<open>t_\<close> here.\<close>

record token =
  t_typ :: tokenTyp
  t_value :: string

record lexer =
  input :: string
  pos :: nat

definition isWordEnd :: "char \<Rightarrow> bool" where
  "isWordEnd ch = (ch = CHR '' '' \<or> ch = CHR ''('' \<or> ch = CHR '')'')"

text \<open>\<open>readWord\<close> advances over the bytes up to a space or a parenthesis.\<close>

definition readWord :: "lexer \<Rightarrow> string \<times> lexer" where
  "readWord l =
     (let word = takeWhile (\<lambda>ch. \<not> isWordEnd ch) (drop (pos l) (input l))
      in (word, l\<lparr>pos := pos l + length word\<rparr>))"

definition skipSpace :: "lexer \<Rightarrow> lexer" where
  "skipSpace l =
     l\<lparr>pos := pos l + length (takeWhile (\<lambda>ch. ch = CHR '' '') (drop (pos l) (input l)))\<rparr>"

definition nextToken :: "lexer \<Rightarrow> token \<times> lexer" where
  "nextToken l0 =
     (let l = skipSpace l0 in
      if pos l \<ge> length (input l) then (\<lparr>t_typ = tokenEOF, t_value = []\<rparr>, l)
      else
        let ch = [input l ! pos l] in
        if ch = ''('' then (\<lparr>t_typ = tokenParenL, t_value = ch\<rparr>, l\<lparr>pos := pos l + 1\<rparr>)
        else if ch = '')'' then (\<lparr>t_typ = tokenParenR, t_value = ch\<rparr>, l\<lparr>pos := pos l + 1\<rparr>)
        else
          let (word, l') = readWord l in
          if word = [] then (\<lparr>t_typ = tokenEOF, t_value = []\<rparr>, l')
          else
            let wordLower = ToLower word in
            (case map_of tokens wordLower of
               Some ty \<Rightarrow> (\<lparr>t_typ = ty, t_value = wordLower\<rparr>, l')
             | None \<Rightarrow>
                 (case map_of fieldNames wordLower of
                    Some _ \<Rightarrow> (\<lparr>t_typ = tokenField, t_value = wordLower\<rparr>, l')
                  | None \<Rightarrow> (\<lparr>t_typ = tokenValue, t_value = word\<rparr>, l'))))"

definition newLexer :: "string \<Rightarrow> lexer" where
  "newLexer inp = \<lparr>input = TrimSpace inp, pos = 0\<rparr>"

subsection \<open>Filter nodes and the parser\<close>

datatype FilterNode =
  anyFilter string
  | fieldFilter fieldTyp string
  | andFilter FilterNode FilterNode
  | orFilter FilterNode FilterNode
  | notFilter FilterNode

text \<open>The three error returns of \<open>parsePrimary\<close>, with the values their messages print.\<close>

datatype compileError =
  ExpectedParenR string
  | ExpectedValue string string
  | UnexpectedToken string

record parser =
  lex :: lexer
  current :: token

definition newParser :: "string \<Rightarrow> parser" where
  "newParser inp = (let (tok, l) = nextToken (newLexer inp) in \<lparr>lex = l, current = tok\<rparr>)"

definition advance :: "parser \<Rightarrow> parser" where
  "advance p = (let (tok, l) = nextToken (lex p) in \<lparr>lex = l, current = tok\<rparr>)"

function parseOr :: "parser \<Rightarrow> (compileError + FilterNode) \<times> parser"
  and orLoop :: "FilterNode \<Rightarrow> parser \<Rightarrow> (compileError + FilterNode) \<times> parser"
  and parseAnd :: "parser \<Rightarrow> (compileError + FilterNode) \<times> parser"
  and andLoop :: "FilterNode \<Rightarrow> parser \<Rightarrow> (compileError + FilterNode) \<times> parser"
  and parseNot :: "parser \<Rightarrow> (compileError + FilterNode) \<times> parser"
  and parsePrimary :: "parser \<Rightarrow> (compileError + FilterNode) \<times> parser"
where
  "parseOr p =
     (case parseAnd p of
        (Inl err, p1) \<Rightarrow> (Inl err, p1)
      | (Inr left, p1) \<Rightarrow> orLoop left p1)"
| "orLoop left p =
     (if t_typ (current p) = tokenOr then
        (case parseAnd (advance p) of
           (Inl err, p1) \<Rightarrow> (Inl err, p1)
         | (Inr right, p1) \<Rightarrow> orLoop (orFilter left right) p1)
      else (Inr left, p))"
| "parseAnd p =
     (case parseNot p of
        (Inl err, p1) \<Rightarrow> (Inl err, p1)
      | (Inr left, p1) \<Rightarrow> andLoop left p1)"
| "andLoop left p =
     (if t_typ (current p) = tokenAnd then
        (case parseNot (advance p) of
           (Inl err, p1) \<Rightarrow> (Inl err, p1)
         | (Inr right, p1) \<Rightarrow> andLoop (andFilter left right) p1)
      else (Inr left, p))"
| "parseNot p =
     (if t_typ (current p) = tokenNot then
        (case parsePrimary (advance p) of
           (Inl err, p1) \<Rightarrow> (Inl err, p1)
         | (Inr child, p1) \<Rightarrow> (Inr (notFilter child), p1))
      else parsePrimary p)"
| "parsePrimary p =
     (if t_typ (current p) = tokenParenL then
        (case parseOr (advance p) of
           (Inl err, p1) \<Rightarrow> (Inl err, p1)
         | (Inr node, p1) \<Rightarrow>
             if t_typ (current p1) \<noteq> tokenParenR
             then (Inl (ExpectedParenR (t_value (current p1))), p1)
             else (Inr node, advance p1))
      else if t_typ (current p) = tokenField then
        (let field = t_value (current p); p1 = advance p in
         if t_typ (current p1) \<noteq> tokenValue
         then (Inl (ExpectedValue field (t_value (current p1))), p1)
         else
           (let v = t_value (current p1); p2 = advance p1 in
            (Inr (fieldFilter (case map_of fieldNames field of Some f \<Rightarrow> f | None \<Rightarrow> fieldAction) v), p2)))
      else if t_typ (current p) = tokenValue then
        (let v = t_value (current p); p1 = advance p in (Inr (anyFilter v), p1))
      else (Inl (UnexpectedToken (t_value (current p))), p))"
  by pat_completeness auto


text \<open>The measure of the parser's progress: the bytes and the token still to be read.\<close>

definition remaining :: "parser \<Rightarrow> nat" where
  "remaining p =
     (length (input (lex p)) - pos (lex p)) + (if t_typ (current p) = tokenEOF then 0 else 1)"

text \<open>\<open>parser.parse\<close> and \<open>Compile\<close>: \<open>Inr None\<close> is the source's \<open>nil, nil\<close>.\<close>

definition parse :: "parser \<Rightarrow> compileError + FilterNode option" where
  "parse p =
     (if t_typ (current p) = tokenEOF then Inr None
      else (case fst (parseOr p) of Inl err \<Rightarrow> Inl err | Inr node \<Rightarrow> Inr (Some node)))"

definition Compile :: "string \<Rightarrow> compileError + FilterNode option" where
  "Compile expression = (if expression = [] then Inr None else parse (newParser expression))"

subsection \<open>Evaluation\<close>

text \<open>
  The later revision of the filter (typed fields): \<open>matchInt\<close> compares the decimal
  rendering with the value as written, \<open>matchStr\<close> is a prefix test on the lower-cased
  strings.  In this revision \<open>LogEntry.Time\<close> is a string.
\<close>

definition matchInt :: "string \<Rightarrow> int \<Rightarrow> bool" where
  "matchInt fvalue i = (Sprintf_d i = fvalue)"

definition matchStr :: "string \<Rightarrow> string \<Rightarrow> bool" where
  "matchStr fvalue s = HasPrefix (ToLower s) (ToLower fvalue)"

fun fieldFilter_Matches :: "fieldTyp \<Rightarrow> string \<Rightarrow> 't LogEntry \<Rightarrow> bool" where
  "fieldFilter_Matches fieldAction v entry = matchStr v (Action entry)"
| "fieldFilter_Matches fieldDestination v entry = matchStr v (Dst entry)"
| "fieldFilter_Matches fieldDirection v entry = matchStr v (Direction entry)"
| "fieldFilter_Matches fieldDstPort v entry = matchInt v (uint (DstPort entry))"
| "fieldFilter_Matches fieldIPVersion v entry = matchInt v (uint (IPVersion entry))"
| "fieldFilter_Matches fieldInterface v entry = matchStr v (Interface entry)"
| "fieldFilter_Matches fieldPort v entry =
     (matchInt v (uint (SrcPort entry)) \<or> matchInt v (uint (DstPort entry)))"
| "fieldFilter_Matches fieldProtocol v entry = matchStr v (ProtoName entry)"
| "fieldFilter_Matches fieldReason v entry = matchStr v (Reason entry)"
| "fieldFilter_Matches fieldSource v entry = matchStr v (Src entry)"
| "fieldFilter_Matches fieldSrcPort v entry = matchInt v (uint (SrcPort entry))"

definition searchFields :: "string LogEntry \<Rightarrow> string list" where
  "searchFields entry =
     [Action entry, Direction entry, Interface entry, Reason entry, Time entry,
      Dst entry, ProtoName entry, Src entry]"

definition anyFilter_Matches :: "string \<Rightarrow> string LogEntry \<Rightarrow> bool" where
  "anyFilter_Matches v entry =
     list_ex (\<lambda>field. Contains (ToLower field) (ToLower v)) (searchFields entry)"

fun Matches :: "FilterNode \<Rightarrow> string LogEntry \<Rightarrow> bool" where
  "Matches (anyFilter v) entry = anyFilter_Matches v entry"
| "Matches (fieldFilter f v) entry = fieldFilter_Matches f v entry"
| "Matches (andFilter l r) entry = (Matches l entry \<and> Matches r entry)"
| "Matches (orFilter l r) entry = (Matches l entry \<or> Matches r entry)"
| "Matches (notFilter c) entry = (\<not> Matches c entry)"

text \<open>
  The earlier revision of the filter keeps the field as the keyword the lexer read and
  guards each port comparison with \<open>> 0\<close>; its bare-value search reads seven fields.
\<close>

definition fieldFilter_Matches_r1 :: "string \<Rightarrow> string \<Rightarrow> 't LogEntry \<Rightarrow> bool" where
  "fieldFilter_Matches_r1 field v entry =
     (let valueLower = ToLower v in
      if field = ''action'' then HasPrefix (ToLower (Action entry)) valueLower
      else if field = ''dir'' \<or> field = ''direction''
        then HasPrefix (ToLower (Direction entry)) valueLower
      else if field = ''dst'' \<or> field = ''dest'' \<or> field = ''destination''
        then HasPrefix (ToLower (Dst entry)) valueLower
      else if field = ''iface'' \<or> field = ''interface''
        then HasPrefix (ToLower (Interface entry)) valueLower
      else if field = ''ip'' \<or> field = ''ipver'' \<or> field = ''ipversion''
        then Sprintf_d (uint (IPVersion entry)) = v
      else if field = ''port'' then
        (if SrcPort entry > 0 \<and> Sprintf_d (uint (SrcPort entry)) = v then True
         else if DstPort entry > 0 \<and> Sprintf_d (uint (DstPort entry)) = v then True
         else False)
      else if field = ''sport'' \<or> field = ''srcport''
        then SrcPort entry > 0 \<and> Sprintf_d (uint (SrcPort entry)) = v
      else if field = ''dport'' \<or> field = ''dstport''
        then DstPort entry > 0 \<and> Sprintf_d (uint (DstPort entry)) = v
      else if field = ''proto'' \<or> field = ''protocol''
        then HasPrefix (ToLower (ProtoName entry)) valueLower
      else if field = ''reason'' then HasPrefix (ToLower (Reason entry)) valueLower
      else if field = ''src'' \<or> field = ''source''
        then HasPrefix (ToLower (Src entry)) valueLower
      else False)"


section \<open>The log stream\<close>

subsection \<open>Slices that can panic\<close>

text \<open>
  A Go slice expression \<open>s[lo:hi]\<close> panics unless \<open>0 \<le> lo \<le> hi \<le> len(s)\<close>.  In the
  functions below \<open>None\<close> is that panic.
\<close>

definition slice :: "string \<Rightarrow> int \<Rightarrow> int \<Rightarrow> string option" where
  "slice s lo hi =
     (if 0 \<le> lo \<and> lo \<le> hi \<and> hi \<le> int (length s)
      then Some (take (nat hi - nat lo) (drop (nat lo) s)) else None)"

definition sliceFrom :: "string \<Rightarrow> int \<Rightarrow> string option" where
  "sliceFrom s lo = slice s lo (int (length s))"

subsection \<open>The line scanner\<close>

text \<open>
  \<open>bufio.Scanner\<close> with its default split function \<open>ScanLines\<close>: a token is the
  bytes up to the next newline, without the newline and without one carriage return
  before it; the last line needs no newline; a line of \<open>MaxScanTokenSize\<close> bytes or
  more stops the scan with \<open>ErrTooLong\<close>.  The scanner's state is the part of the file
  not yet consumed and the error flag.
\<close>

record Scanner =
  sc_rest :: string
  sc_err :: bool

definition MaxScanTokenSize :: int where
  "MaxScanTokenSize = 65536"

definition NewScanner :: "string \<Rightarrow> Scanner" where
  "NewScanner bytes = \<lparr>sc_rest = bytes, sc_err = False\<rparr>"

definition dropCR :: "string \<Rightarrow> string" where
  "dropCR bytes = (if bytes \<noteq> [] \<and> last bytes = CHR 0x0D then butlast bytes else bytes)"

definition Scan :: "Scanner \<Rightarrow> string option \<times> Scanner" where
  "Scan sc =
     (if sc_err sc \<or> sc_rest sc = [] then (None, sc)
      else
        let raw = takeWhile (\<lambda>c. c \<noteq> CHR 0x0A) (sc_rest sc) in
        if int (length raw) \<ge> MaxScanTokenSize then (None, sc\<lparr>sc_err := True\<rparr>)
        else (Some (dropCR raw), sc\<lparr>sc_rest := drop (length raw + 1) (sc_rest sc)\<rparr>))"

subsection \<open>The stream and its diagnostics\<close>

text \<open>
  \<open>fileOffset\<close> (fields \<open>line\<close> and \<open>offset\<close>) and \<open>Stream\<close>.  The model keeps the
  bytes of the file at \<open>path\<close> in the field \<open>contents\<close>; the position of the open handle is
  the scanner's.  Opening the file always succeeds and always finds the same bytes.
\<close>

record fileOffset =
  fo_line :: int
  fo_offset :: int

record Stream =
  errors :: "string list"
  contents :: string
  index :: "fileOffset list"
  lineNum :: int
  scanner :: Scanner
  validLines :: int

datatype streamError = MissingIndex | OutOfRange int nat | SeekError int | ScannerError

definition MaxErrorsInMemory :: nat where
  "MaxErrorsInMemory = 1000"

definition addError :: "Stream \<Rightarrow> string \<Rightarrow> Stream" where
  "addError s msg =
     (if length (errors s) < MaxErrorsInMemory then s\<lparr>errors := errors s @ [msg]\<rparr> else s)"

text \<open>\<open>s.addError(msg); return nil\<close>, the exit of every failing branch of the parser.\<close>

definition diag :: "Stream \<Rightarrow> string \<Rightarrow> ('t LogEntry option \<times> Stream) option" where
  "diag s msg = Some (None, addError s msg)"

subsection \<open>Parsing a line\<close>

text \<open>The loop of \<open>extractCSVField\<close>: the start of field number \<open>field\<close>, if it exists.\<close>

fun fieldStart :: "string \<Rightarrow> nat \<Rightarrow> int \<Rightarrow> int option option" where
  "fieldStart csv 0 start = Some (Some start)"
| "fieldStart csv (Suc k) start =
     do {
       rest \<leftarrow> sliceFrom csv start;
       let idx = IndexByte rest (CHR '','');
       if idx = -1 then Some None else fieldStart csv k (start + (idx + 1))
     }"

definition extractCSVField :: "string \<Rightarrow> nat \<Rightarrow> (string \<times> bool) option" where
  "extractCSVField csv field =
     do {
       st \<leftarrow> fieldStart csv field 0;
       case st of
         None \<Rightarrow> Some ([], False)
       | Some start \<Rightarrow>
           do {
             rest \<leftarrow> sliceFrom csv start;
             let endIdx = IndexByte rest (CHR '','');
             if endIdx = -1 then Some (rest, True)
             else do { f \<leftarrow> slice csv start (start + endIdx); Some (f, True) }
           }
     }"

text \<open>
  The \<open>switch\<close> statements over the known reasons, actions, directions and protocols
  store the constant that equals the text read, and the text itself otherwise.
\<close>

definition canonical :: "string list \<Rightarrow> string \<Rightarrow> string" where
  "canonical known x = (case find (\<lambda>k. x = k) known of Some k \<Rightarrow> k | None \<Rightarrow> x)"

definition reasons :: "string list" where
  "reasons =
     [''match'', ''bad-offset'', ''fragment'', ''short'', ''normalize'', ''memory'',
      ''bad-timestamp'', ''congestion'', ''ip-option'', ''proto-cksum'', ''state-mismatch'',
      ''state-insert'', ''state-limit'', ''src-limit'', ''synproxy'']"

definition actions :: "string list" where
  "actions = [''pass'', ''block'', ''scrub'', ''nat'', ''binat'', ''rdr'', ''synproxy-drop'']"

definition directions :: "string list" where
  "directions = [''in'', ''out'', ''in/out'']"

definition protoTCP :: string where "protoTCP = ''tcp''"
definition protoUDP :: string where "protoUDP = ''udp''"
definition protoICMP :: string where "protoICMP = ''icmp''"
definition protoICMPv6 :: string where "protoICMPv6 = ''ipv6-icmp''"

text \<open>
  The four port blocks of \<open>parseLine\<close> (udp4, tcp4, udp6, tcp6) differ in the tag of
  their messages and in the two field numbers only.
\<close>

definition parsePorts ::
  "Stream \<Rightarrow> string \<Rightarrow> 't LogEntry \<Rightarrow> string \<Rightarrow> nat \<Rightarrow> nat \<Rightarrow> int
     \<Rightarrow> ('t LogEntry option \<times> Stream) option" where
  "parsePorts s csv entry tag srcField dstField ln =
     do {
       (srcPortStr, ok) \<leftarrow> extractCSVField csv srcField;
       if \<not> ok then diag s (''invalid '' @ tag @ ''/srcPortStr on line '' @ Sprintf_d ln)
       else
         case ParseUint srcPortStr 16 of
           None \<Rightarrow> diag s (''invalid '' @ tag @ ''/srcPort on line '' @ Sprintf_d ln)
         | Some srcPort \<Rightarrow>
             do {
               (dstPortStr, ok) \<leftarrow> extractCSVField csv dstField;
               if \<not> ok
               then diag s (''invalid '' @ tag @ ''/dstPortStr on line '' @ Sprintf_d ln)
               else
                 case ParseUint dstPortStr 16 of
                   None \<Rightarrow>
                     diag s (''invalid '' @ tag @ ''/dstPort on line '' @ Sprintf_d ln)
                 | Some dstPort \<Rightarrow>
                     Some (Some (entry\<lparr>SrcPort := word_of_int srcPort, DstPort := word_of_int dstPort\<rparr>), s)
             }
     }"

text \<open>
  The two address blocks (\<open>case 4\<close> and \<open>case 6\<close>): protocol name, source and
  destination at the version's field numbers, then the ports of tcp and udp.
\<close>

definition parseIP ::
  "Stream \<Rightarrow> string \<Rightarrow> 't LogEntry \<Rightarrow> string \<Rightarrow> nat \<Rightarrow> nat \<Rightarrow> nat \<Rightarrow> string \<Rightarrow> nat
     \<Rightarrow> int \<Rightarrow> ('t LogEntry option \<times> Stream) option" where
  "parseIP s csv entry v protoField srcField dstField icmp portField ln =
     do {
       (protoName, ok) \<leftarrow> extractCSVField csv protoField;
       if \<not> ok then diag s (''invalid '' @ v @ ''/protoName on line '' @ Sprintf_d ln)
       else do {
         (src, ok) \<leftarrow> extractCSVField csv srcField;
         if \<not> ok then diag s (''invalid '' @ v @ ''/src on line '' @ Sprintf_d ln)
         else do {
           (dst, ok) \<leftarrow> extractCSVField csv dstField;
           if \<not> ok then diag s (''invalid '' @ v @ ''/dst on line '' @ Sprintf_d ln)
           else
             let entry = entry\<lparr>Src := src, Dst := dst,
                   ProtoName := canonical [protoTCP, protoUDP, icmp] protoName\<rparr>
             in
               if ProtoName entry = protoUDP
               then parsePorts s csv entry (''udp'' @ drop 1 v) portField (portField + 1) ln
               else if ProtoName entry = protoTCP
               then parsePorts s csv entry (''tcp'' @ drop 1 v) portField (portField + 1) ln
               else Some (Some entry, s)
         }
       }
     }"

text \<open>
  The fixed fields of the record (label, interface, reason, action, direction, IP version)
  and the \<open>switch\<close> over the version.
\<close>

definition parseCSV ::
  "Stream \<Rightarrow> string \<Rightarrow> 't \<Rightarrow> int \<Rightarrow> ('t LogEntry option \<times> Stream) option" where
  "parseCSV s csv timestamp ln =
     do {
       (label, ok) \<leftarrow> extractCSVField csv 3;
       if \<not> ok then diag s (''invalid label on line '' @ Sprintf_d ln)
       else do {
         (iface, ok) \<leftarrow> extractCSVField csv 4;
         if \<not> ok then diag s (''invalid iface on line '' @ Sprintf_d ln)
         else do {
           (reason, ok) \<leftarrow> extractCSVField csv 5;
           if \<not> ok then diag s (''invalid reason on line '' @ Sprintf_d ln)
           else do {
             (action, ok) \<leftarrow> extractCSVField csv 6;
             if \<not> ok then diag s (''invalid action on line '' @ Sprintf_d ln)
             else do {
               (direction, ok) \<leftarrow> extractCSVField csv 7;
               if \<not> ok then diag s (''invalid direction on line '' @ Sprintf_d ln)
               else do {
                 (ipVersionStr, ok) \<leftarrow> extractCSVField csv 8;
                 if \<not> ok then diag s (''invalid ipVersionStr on line '' @ Sprintf_d ln)
                 else
                   case ParseUint ipVersionStr 8 of
                     None \<Rightarrow> diag s (''invalid ipVersion on line '' @ Sprintf_d ln)
                   | Some ipVersion \<Rightarrow>
                       let entry =
                         \<lparr>Action = canonical actions action,
                          Direction = canonical directions direction,
                          Interface = iface, Label = label,
                          Reason = canonical reasons reason,
                          Time = timestamp, Dst = [], IPVersion = word_of_int ipVersion,
                          ProtoName = [], Src = [], DstPort = 0, SrcPort = 0\<rparr>
                       in
                         if IPVersion entry = 4
                         then parseIP s csv entry ''v4'' 16 18 19 protoICMP 20 ln
                         else if IPVersion entry = 6
                         then parseIP s csv entry ''v6'' 12 15 16 protoICMPv6 17 ln
                         else diag s (''invalid IPVersion '' @ [CHR 0x27]
                                @ Sprintf_d (uint (IPVersion entry)) @ [CHR 0x27]
                                @ '' on line '' @ Sprintf_d ln)
               }
             }
           }
         }
       }
     }"

text \<open>
  \<open>parseLine\<close>.  Its first argument stands for \<open>time.Parse(time.RFC3339, \<cdot>)\<close> of the Go
  library: the error text, or the time.
\<close>

definition parseLine ::
  "(string \<Rightarrow> string + 't) \<Rightarrow> Stream \<Rightarrow> string \<Rightarrow> int
     \<Rightarrow> ('t LogEntry option \<times> Stream) option" where
  "parseLine timeParse s line ln =
     (let tsStartIdx = IndexByte line (CHR '' '') in
      do {
        rest \<leftarrow> sliceFrom line (tsStartIdx + 1);
        let tsEndIdx = IndexByte rest (CHR '' '');
        if tsStartIdx = -1 \<or> tsEndIdx = -1
        then diag s (''invalid timestamp on line '' @ Sprintf_d ln)
        else do {
          ts \<leftarrow> slice line (tsStartIdx + 1) (tsEndIdx + (tsStartIdx + 1));
          case timeParse ts of
            Inl err \<Rightarrow>
              diag s (''invalid timestamp on line '' @ Sprintf_d ln @ '': '' @ err)
          | Inr timestamp \<Rightarrow>
              let csvStart = Index line ''] '' in
              if csvStart = -1 then diag s (''invalid csv on line '' @ Sprintf_d ln)
              else do {
                csv \<leftarrow> sliceFrom line (csvStart + 2);
                parseCSV s csv timestamp ln
              }
        }
      })"

text \<open>
  The two ways \<open>parseLine\<close> may return on a stream \<open>s\<close>: an entry and the stream as
  it was, or no entry and the stream with one more \<open>addError\<close>.  A panic is neither.
\<close>

definition outcome :: "Stream \<Rightarrow> ('t LogEntry option \<times> Stream) option \<Rightarrow> bool" where
  "outcome s r =
     ((\<exists>e. r = Some (Some e, s)) \<or> (\<exists>msg. r = Some (None, addError s msg)))"

subsection \<open>Index, sequential reads and seeks\<close>

definition reset :: "Stream \<Rightarrow> Stream" where
  "reset s = s\<lparr>scanner := NewScanner (contents s), lineNum := 0\<rparr>"

text \<open>
  The loop of \<open>BuildIndex\<close> over its own scanner, with the locals \<open>lineNum\<close> (here \<open>ln\<close>),
  \<open>offset\<close> and \<open>validLines\<close> (here \<open>valid\<close>).
\<close>

function buildLoop ::
  "(string \<Rightarrow> string + 't) \<Rightarrow> Scanner \<Rightarrow> Stream \<Rightarrow> int \<Rightarrow> int \<Rightarrow> int
     \<Rightarrow> (Scanner \<times> Stream \<times> int) option" where
  "buildLoop timeParse sc s ln offset valid =
     (case Scan sc of
        (None, sc') \<Rightarrow> Some (sc', s, valid)
      | (Some line, sc') \<Rightarrow>
          (case parseLine timeParse s line ln of
             None \<Rightarrow> None
           | Some (None, s') \<Rightarrow>
               buildLoop timeParse sc' s' (ln + 1) (offset + (int (length line) + 1))
                 valid
           | Some (Some entry, s') \<Rightarrow>
               buildLoop timeParse sc'
                 (s'\<lparr>index := index s' @ [\<lparr>fo_line = valid, fo_offset = offset\<rparr>]\<rparr>)
                 (ln + 1) (offset + (int (length line) + 1)) (valid + 1)))"
  by pat_completeness auto

text \<open>
  On the error return of \<open>BuildIndex\<close> the stream is not reset; the model leaves it the
  scanner that stopped.
\<close>

definition BuildIndex ::
  "(string \<Rightarrow> string + 't) \<Rightarrow> Stream \<Rightarrow> (streamError option \<times> Stream) option" where
  "BuildIndex timeParse s =
     (let s0 = (reset s)\<lparr>index := []\<rparr> in
      case buildLoop timeParse (NewScanner (contents s0)) s0 0 0 0 of
        None \<Rightarrow> None
      | Some (sc, s1, n) \<Rightarrow>
          let s2 = s1\<lparr>validLines := n\<rparr> in
          if sc_err sc then Some (Some ScannerError, s2\<lparr>scanner := sc\<rparr>)
          else Some (None, reset s2))"

definition hasIndex :: "Stream \<Rightarrow> bool" where
  "hasIndex s = (length (index s) > 0)"

definition TotalLines :: "Stream \<Rightarrow> int" where
  "TotalLines s = (if \<not> hasIndex s then -1 else validLines s)"

text \<open>\<open>TotalLines\<close> of the revision that keeps no counter.\<close>

definition TotalLines_len :: "Stream \<Rightarrow> int" where
  "TotalLines_len s = (let i = int (length (index s)) in if i > 0 then i else -1)"

definition GetErrors :: "Stream \<Rightarrow> string list" where
  "GetErrors s = errors s"

definition NewStream :: "string \<Rightarrow> Stream" where
  "NewStream bytes =
     \<lparr>errors = [], contents = bytes, index = [], lineNum = 0,
      scanner = NewScanner bytes, validLines = 0\<rparr>"

function Next ::
  "(string \<Rightarrow> string + 't) \<Rightarrow> Stream \<Rightarrow> ('t LogEntry option \<times> Stream) option" where
  "Next timeParse s =
     (case Scan (scanner s) of
        (None, sc') \<Rightarrow> Some (None, s\<lparr>scanner := sc'\<rparr>)
      | (Some line, sc') \<Rightarrow>
          (let s1 = s\<lparr>scanner := sc', lineNum := lineNum s + 1\<rparr> in
           case parseLine timeParse s1 line (lineNum s1) of
             None \<Rightarrow> None
           | Some (Some entry, s2) \<Rightarrow> Some (Some entry, s2)
           | Some (None, s2) \<Rightarrow> Next timeParse s2))"
  by pat_completeness auto

definition SeekToLine :: "Stream \<Rightarrow> int \<Rightarrow> streamError option \<times> Stream" where
  "SeekToLine s n =
     (if \<not> hasIndex s then (Some MissingIndex, s)
      else if n < 0 \<or> n \<ge> int (length (index s))
      then (Some (OutOfRange n (length (index s))), s)
      else
        let off = fo_offset (index s ! nat n) in
        if off < 0 then (Some (SeekError n), s)
        else (None, s\<lparr>scanner := NewScanner (drop (nat off) (contents s)), lineNum := n\<rparr>))"

subsection \<open>Notions the properties are stated with\<close>

text \<open>
  \<open>grows s s'\<close>: the diagnostics of \<open>s'\<close> are those of \<open>s\<close> followed by further ones,
  cut at the cap.
\<close>

definition grows :: "Stream \<Rightarrow> Stream \<Rightarrow> bool" where
  "grows s s' = (\<exists>ms. errors s' = take MaxErrorsInMemory (errors s @ ms))"

text \<open>
  Case-insensitive prefix and substring, as the specification words the two kinds of
  string match, and two concrete records: an ICMP one (ports 0) and a UDP one.
\<close>

definition ciPrefix :: "string \<Rightarrow> string \<Rightarrow> bool" where
  "ciPrefix v s = (\<exists>rest. ToLower s = ToLower v @ rest)"


definition icmpEntry :: "string LogEntry" where
  "icmpEntry =
     \<lparr>Action = ''pass'', Direction = ''in'', Interface = ''igb0'', Label = ''label'',
      Reason = ''match'', Time = ''2025-10-10T00:00:00Z'', Dst = ''10.0.0.1'', IPVersion = 4,
      ProtoName = ''icmp'', Src = ''192.168.1.100'', DstPort = 0, SrcPort = 0\<rparr>"

definition udpEntry :: "string LogEntry" where
  "udpEntry = icmpEntry\<lparr>ProtoName := ''udp'', Src := ''10.0.0.7'', SrcPort := 53, DstPort := 53\<rparr>"

text \<open>Every line the scanner yields from its state on.\<close>

function allLines :: "Scanner \<Rightarrow> string list" where
  "allLines sc = (case Scan sc of (None, sc') \<Rightarrow> [] | (Some line, sc') \<Rightarrow> line # allLines sc')"
  by pat_completeness auto

text \<open>
  The index a scan builds from the lines \<open>ls\<close>, when the first of them starts at byte
  \<open>off\<close> and \<open>v\<close> valid lines came before: one entry for each line that has a record,
  each line counted with its length and one byte more.
\<close>

fun indexFrom ::
  "(string \<Rightarrow> 'a option) \<Rightarrow> string list \<Rightarrow> int \<Rightarrow> int \<Rightarrow> fileOffset list" where
  "indexFrom f [] off v = []"
| "indexFrom f (l # ls) off v =
     (case f l of
        None \<Rightarrow> indexFrom f ls (off + (int (length l) + 1)) v
      | Some e \<Rightarrow>
          \<lparr>fo_line = v, fo_offset = off\<rparr> # indexFrom f ls (off + (int (length l) + 1)) (v + 1))"

text \<open>
  The record of one line, and the valid records of a file in the order of their lines:
  what a caller collects who calls \<open>Next\<close> on a fresh stream until it returns \<open>nil\<close>
  (\<open>drain\<close>, the loop \<open>for entry := s.Next(); entry != nil; entry = s.Next()\<close> of the
  callers).
\<close>

definition lineEntry :: "(string \<Rightarrow> string + 't) \<Rightarrow> string \<Rightarrow> 't LogEntry option" where
  "lineEntry timeParse line =
     (case parseLine timeParse (NewStream []) line 0 of Some (r, s') \<Rightarrow> r | None \<Rightarrow> None)"

definition validRecords :: "(string \<Rightarrow> string + 't) \<Rightarrow> string \<Rightarrow> 't LogEntry list" where
  "validRecords timeParse bytes =
     List.map_filter (lineEntry timeParse) (allLines (NewScanner bytes))"

function drain :: "(string \<Rightarrow> string + 't) \<Rightarrow> Stream \<Rightarrow> 't LogEntry list option" where
  "drain timeParse s =
     (case Next timeParse s of
        None \<Rightarrow> None
      | Some (None, s') \<Rightarrow> Some []
      | Some (Some entry, s') \<Rightarrow> map_option ((#) entry) (drain timeParse s'))"
  by pat_completeness auto

text \<open>
  A time parser for concrete inputs.  It accepts the timestamps
  \<open>YYYY-MM-DDThh:mm:ssZ\<close> with a month from 01 to 12, a day from 01 to 28 and a time of
  day in range, all of which \<open>time.Parse(time.RFC3339, \<cdot>)\<close> accepts, and returns their
  text.  The general theorems hold for every time parser.
\<close>

definition twoDigits :: "string \<Rightarrow> int \<Rightarrow> int \<Rightarrow> bool" where
  "twoDigits s lo hi =
     (length s = 2 \<and> list_all isDigit s \<and> lo \<le> digitsValue s \<and> digitsValue s \<le> hi)"

definition utcTimestamp :: "string \<Rightarrow> string + string" where
  "utcTimestamp ts =
     (if length ts = 20 \<and> list_all isDigit (take 4 ts)
         \<and> ts ! 4 = CHR ''-'' \<and> twoDigits (take 2 (drop 5 ts)) 1 12
         \<and> ts ! 7 = CHR ''-'' \<and> twoDigits (take 2 (drop 8 ts)) 1 28
         \<and> ts ! 10 = CHR ''T'' \<and> twoDigits (take 2 (drop 11 ts)) 0 23
         \<and> ts ! 13 = CHR '':'' \<and> twoDigits (take 2 (drop 14 ts)) 0 59
         \<and> ts ! 16 = CHR '':'' \<and> twoDigits (take 2 (drop 17 ts)) 0 59
         \<and> ts ! 19 = CHR ''Z''
      then Inr ts else Inl ''cannot parse'')"

text \<open>
  \<open>SeekToLine(n)\<close> followed by one \<open>Next()\<close>: the error of the seek, or what
  \<open>Next\<close> returns (\<open>None\<close> is a panic); and the first valid record of a run of bytes.
\<close>

definition seekNext ::
  "(string \<Rightarrow> string + 't) \<Rightarrow> Stream \<Rightarrow> int \<Rightarrow> (streamError + 't LogEntry option) option" where
  "seekNext timeParse s n =
     (case SeekToLine s n of
        (Some err, s') \<Rightarrow> Some (Inl err)
      | (None, s') \<Rightarrow> map_option (Inr \<circ> fst) (Next timeParse s'))"

definition firstRecord :: "(string \<Rightarrow> string + 't) \<Rightarrow> string \<Rightarrow> 't LogEntry option" where
  "firstRecord timeParse bytes =
     (case validRecords timeParse bytes of [] \<Rightarrow> None | e # es \<Rightarrow> Some e)"

text \<open>Two log lines, one without the fields of a record, and a file of the three.\<close>

definition udpLine :: string where
  "udpLine = ''<134>1 2025-10-10T00:00:00Z fw filterlog 1 - [meta 1] 82,,,lbl,vtnet0,match,pass,out,4,0x0,,64,0,0,DF,17,udp,76,192.168.1.100,192.168.1.1,63511,53,56''"

definition icmpLine :: string where
  "icmpLine = ''<134>1 2025-10-10T00:00:01Z fw filterlog 1 - [meta 2] 82,,,lbl,vtnet0,match,block,in,6,0x00,0x00000,64,ipv6-icmp,58,8,fe80::1,ff02::1,''"

definition mixedLog :: string where
  "mixedLog = udpLine @ [CHR 0x0A] @ ''garbage'' @ [CHR 0x0A] @ icmpLine @ [CHR 0x0A]"

text \<open>
  The records of the two lines; a file of 150 empty lines that end in carriage return and
  newline, followed by the two lines; a file with no valid line, and the stream
  \<open>BuildIndex\<close> leaves of it.
\<close>

definition udpRecord :: "string LogEntry" where
  "udpRecord =
     \<lparr>Action = ''pass'', Direction = ''out'', Interface = ''vtnet0'', Label = ''lbl'',
      Reason = ''match'', Time = ''2025-10-10T00:00:00Z'', Dst = ''192.168.1.1'',
      IPVersion = 4, ProtoName = ''udp'', Src = ''192.168.1.100'', DstPort = 53,
      SrcPort = 63511\<rparr>"

definition icmpRecord :: "string LogEntry" where
  "icmpRecord =
     \<lparr>Action = ''block'', Direction = ''in'', Interface = ''vtnet0'', Label = ''lbl'',
      Reason = ''match'', Time = ''2025-10-10T00:00:01Z'', Dst = ''ff02::1'',
      IPVersion = 6, ProtoName = ''ipv6-icmp'', Src = ''fe80::1'', DstPort = 0,
      SrcPort = 0\<rparr>"

definition crlfLog :: string where
  "crlfLog =
     concat (replicate 150 [CHR 0x0D, CHR 0x0A]) @ udpLine @ [CHR 0x0A] @ icmpLine @ [CHR 0x0A]"

definition garbageLog :: string where
  "garbageLog = ''garbage'' @ [CHR 0x0A]"

definition garbageIndexed :: Stream where
  "garbageIndexed =
     \<lparr>errors = [''invalid timestamp on line 0''], contents = garbageLog, index = [],
      lineNum = 0, scanner = NewScanner garbageLog, validLines = 0\<rparr>"

text \<open>
  The record of a line as the line format describes it, without the code's offsets and
  slices.  \<open>splitOn c s\<close> is the bare positional split of \<open>s\<close> at every \<open>c\<close>;
  \<open>timestampToken\<close> is the text between the first and the second space, and \<open>afterDelim\<close>
  the text after the first \<open>"] "\<close>.
\<close>

fun splitOn :: "char \<Rightarrow> string \<Rightarrow> string list" where
  "splitOn c [] = [[]]"
| "splitOn c (x # xs) =
     (if x = c then [] # splitOn c xs
      else (case splitOn c xs of [] \<Rightarrow> [[x]] | f # fs \<Rightarrow> (x # f) # fs))"






section \<open>Properties of the filter compiler\<close>

subsection \<open>The parser terminates\<close>

lemma nextToken_input: "input (snd (nextToken l)) = input l"
  by (simp add: nextToken_def skipSpace_def readWord_def Let_def split: option.splits)

lemma nextToken_pos: "pos l \<le> pos (snd (nextToken l))"
  by (simp add: nextToken_def skipSpace_def readWord_def Let_def split: option.splits)

lemma takeWhile_drop_le: "n + length (takeWhile P (drop n xs)) \<le> max n (length xs)"
proof -
  have "length (takeWhile P (drop n xs)) \<le> length (drop n xs)"
    by (rule length_takeWhile_le)
  then show ?thesis by simp
qed

lemma nextToken_progress:
  assumes "t_typ (fst (nextToken l)) \<noteq> tokenEOF"
  shows "pos l < pos (snd (nextToken l)) \<and> pos (snd (nextToken l)) \<le> length (input l)"
proof -
  let ?l = "skipSpace l"
  have in_l: "input ?l = input l" and pos_l: "pos l \<le> pos ?l"
    by (simp_all add: skipSpace_def)
  have lt: "pos ?l < length (input l)"
    using assms by (auto simp: nextToken_def Let_def in_l split: if_splits)
  let ?w = "takeWhile (\<lambda>ch. \<not> isWordEnd ch) (drop (pos ?l) (input ?l))"
  have w_le: "pos ?l + length ?w \<le> length (input l)"
    using takeWhile_drop_le [of "pos ?l" "\<lambda>ch. \<not> isWordEnd ch" "input ?l"] lt in_l by simp
  show ?thesis
  proof (cases "[input ?l ! pos ?l] = ''('' \<or> [input ?l ! pos ?l] = '')''")
    case True
    then show ?thesis
      using lt pos_l by (auto simp: nextToken_def Let_def in_l)
  next
    case False
    have ne: "?w \<noteq> []"
      using assms False lt
      by (auto simp: nextToken_def Let_def in_l readWord_def split: if_splits)
    have eq: "pos (snd (nextToken l)) = pos ?l + length ?w"
      using False lt
      by (auto simp: nextToken_def Let_def in_l readWord_def split: option.splits)
    have "0 < length ?w"
      using ne by (cases ?w) simp_all
    then show ?thesis
      using eq w_le pos_l by linarith
  qed
qed

lemma advance_le: "remaining (advance p) \<le> remaining p"
proof (cases "t_typ (fst (nextToken (lex p))) = tokenEOF")
  case True
  then show ?thesis
    using nextToken_pos [of "lex p"] nextToken_input [of "lex p"]
    by (simp add: remaining_def advance_def split_beta)
next
  case False
  then show ?thesis
    using nextToken_progress [of "lex p"] nextToken_input [of "lex p"]
    by (auto simp: remaining_def advance_def split_beta)
qed

lemma advance_less: "t_typ (current p) \<noteq> tokenEOF \<Longrightarrow> remaining (advance p) < remaining p"
proof (cases "t_typ (fst (nextToken (lex p))) = tokenEOF")
  case True
  assume "t_typ (current p) \<noteq> tokenEOF"
  with True show ?thesis
    using nextToken_pos [of "lex p"] nextToken_input [of "lex p"]
    by (simp add: remaining_def advance_def split_beta)
next
  case False
  assume "t_typ (current p) \<noteq> tokenEOF"
  with False show ?thesis
    using nextToken_progress [of "lex p"] nextToken_input [of "lex p"]
    by (auto simp: remaining_def advance_def split_beta)
qed

lemma advance_le_trans: "remaining q \<le> n \<Longrightarrow> remaining (advance q) \<le> n"
  using advance_le [of q] by simp

lemma parse_remaining_partial:
  "parseOr_orLoop_parseAnd_andLoop_parseNot_parsePrimary_dom (Inl (Inl p)) \<Longrightarrow>
     remaining (snd (parseOr p)) \<le> remaining p"
  "parseOr_orLoop_parseAnd_andLoop_parseNot_parsePrimary_dom (Inl (Inr (Inl (left, p)))) \<Longrightarrow>
     remaining (snd (orLoop left p)) \<le> remaining p"
  "parseOr_orLoop_parseAnd_andLoop_parseNot_parsePrimary_dom (Inl (Inr (Inr p))) \<Longrightarrow>
     remaining (snd (parseAnd p)) \<le> remaining p"
  "parseOr_orLoop_parseAnd_andLoop_parseNot_parsePrimary_dom (Inr (Inl (left', p))) \<Longrightarrow>
     remaining (snd (andLoop left' p)) \<le> remaining p"
  "parseOr_orLoop_parseAnd_andLoop_parseNot_parsePrimary_dom (Inr (Inr (Inl p))) \<Longrightarrow>
     remaining (snd (parseNot p)) \<le> remaining p"
  "parseOr_orLoop_parseAnd_andLoop_parseNot_parsePrimary_dom (Inr (Inr (Inr p))) \<Longrightarrow>
     remaining (snd (parsePrimary p)) \<le> remaining p"
proof (induction p and left p and p and left' p and p and p
    rule: parseOr_orLoop_parseAnd_andLoop_parseNot_parsePrimary.pinduct)
  case (1 p)
  then show ?case
    by (auto simp: parseOr.psimps split: prod.splits sum.splits) 
next
  case (2 left p)
  then show ?case
    using advance_le [of p]
    by (auto simp: orLoop.psimps split: prod.splits sum.splits) 
next
  case (3 p)
  then show ?case 
    by (auto simp: parseAnd.psimps split: prod.splits sum.splits) 
next
  case (4 left p)
  then show ?case 
    using advance_le [of p]
    by (auto simp: andLoop.psimps split: prod.splits sum.splits) 
next
  case (5 p)
  then show ?case
    using advance_le [of p]
    by (auto simp: parseNot.psimps split: prod.splits sum.splits) 
next
  case (6 p)
  show ?case
  proof (cases "t_typ (current p) = tokenParenL")
    case True
    from "6.IH" [OF True] have "remaining (snd (parseOr (advance p))) \<le> remaining p"
      using advance_le [of p] by simp
    then show ?thesis
      using True "6.hyps"
      by (auto simp: parsePrimary.psimps split: prod.splits sum.splits intro: advance_le_trans)
  next
    case False
    then show ?thesis
      using "6.hyps"
      by (auto simp: parsePrimary.psimps Let_def intro!: advance_le_trans advance_le)
  qed
qed

termination parseOr
proof (relation "measure (\<lambda>x. case x of
      Inl (Inl p) \<Rightarrow> 4 * remaining p + 3
    | Inl (Inr (Inl (left, p))) \<Rightarrow> 4 * remaining p
    | Inl (Inr (Inr p)) \<Rightarrow> 4 * remaining p + 2
    | Inr (Inl (left, p)) \<Rightarrow> 4 * remaining p
    | Inr (Inr (Inl p)) \<Rightarrow> 4 * remaining p + 1
    | Inr (Inr (Inr p)) \<Rightarrow> 4 * remaining p)", goal_cases)
  case 1
  show ?case by simp
next
  case (2 p)
  show ?case by simp
next
  case (3 p x y b)
  from 3(1) have "y = snd (parseAnd p)" by (metis snd_conv)
  then show ?case
    using parse_remaining_partial(3) [OF 3(3)] by simp
next
  case (4 left p)
  then show ?case
    using advance_less [of p] by simp
next
  case (5 left p x y b)
  from 5(2) have "y = snd (parseAnd (advance p))" by (metis snd_conv)
  then show ?case
    using advance_less [of p] 5(1) parse_remaining_partial(3) [OF 5(4)] by simp
next
  case (6 p)
  show ?case by simp
next
  case (7 p x y b)
  from 7(1) have "y = snd (parseNot p)" by (metis snd_conv)
  then show ?case
    using parse_remaining_partial(5) [OF 7(3)] by simp
next
  case (8 left p)
  then show ?case
    using advance_less [of p] by simp
next
  case (9 left p x y b)
  from 9(2) have "y = snd (parseNot (advance p))" by (metis snd_conv)
  then show ?case
    using advance_less [of p] 9(1) parse_remaining_partial(5) [OF 9(4)] by simp
next
  case (10 p)
  then show ?case
    using advance_less [of p] by simp
next
  case (11 p)
  show ?case by simp
next
  case (12 p)
  then show ?case
    using advance_less [of p] by simp
qed

subsection \<open>Expressions of spaces\<close>

lemma TrimSpace_spaces: "set e \<subseteq> {CHR '' ''} \<Longrightarrow> TrimSpace e = []"
proof -
  assume a: "set e \<subseteq> {CHR '' ''}"
  have "\<forall>c \<in> set e. isSpaceByte c"
    using a by (auto simp: isSpaceByte_def)
  then have "dropWhile isSpaceByte e = []"
    by (induction e) auto
  then show ?thesis by (simp only: TrimSpace_def rev.simps dropWhile.simps)
qed

lemma newParser_empty_input:
  "TrimSpace e = [] \<Longrightarrow> t_typ (current (newParser e)) = tokenEOF"
  by (simp add: newParser_def newLexer_def nextToken_def skipSpace_def)

text \<open>
  Claim C10.  For every non-empty expression that consists of space characters only,
  \<open>Compile\<close> returns no filter node and no error (\<open>Inr None\<close>), the result it also
  gives for the empty expression: \<open>newLexer\<close> trims the input, the first token is
  \<open>tokenEOF\<close>, and \<open>parse\<close> returns before \<open>parseOr\<close> is called.
\<close>

theorem Compile_spaces_nil:
  "e \<noteq> [] \<Longrightarrow> set e \<subseteq> {CHR '' ''} \<Longrightarrow> Compile e = Inr None"
  by (simp add: Compile_def parse_def newParser_empty_input TrimSpace_spaces)

theorem Compile_spaces_nil_witness:
  "''   '' \<noteq> [] \<and> set ''   '' \<subseteq> {CHR '' ''} \<and> Compile ''   '' = Inr None"
  using Compile_spaces_nil [of "''   ''"] by simp

subsection \<open>Matching\<close>

lemma HasPrefix_iff: "HasPrefix s pre \<longleftrightarrow> (\<exists>rest. s = pre @ rest)"
proof
  assume "HasPrefix s pre"
  then have "s = pre @ drop (length pre) s"
    by (metis HasPrefix_def append_take_drop_id)
  then show "\<exists>rest. s = pre @ rest" ..
next
  assume "\<exists>rest. s = pre @ rest"
  then show "HasPrefix s pre" by (auto simp: HasPrefix_def)
qed

lemma matchStr_iff: "matchStr v s \<longleftrightarrow> ciPrefix v s"
  by (simp add: matchStr_def ciPrefix_def HasPrefix_iff)



text \<open>
  Claim C3, as amended.  In the later revision of the filter a match on the source or
  the destination port holds exactly when the decimal rendering of that port equals the
  value as written, for the port 0 as for any other, and the composite \<open>port\<close> matches
  when one of the two does.  The rule that a port 0 never matches holds in the earlier
  revision, whose comparisons are guarded by \<open>> 0\<close>.
\<close>

theorem port_match:
  "(fieldFilter_Matches fieldSrcPort v entry \<longleftrightarrow> Sprintf_d (uint (SrcPort entry)) = v) \<and>
   (fieldFilter_Matches fieldDstPort v entry \<longleftrightarrow> Sprintf_d (uint (DstPort entry)) = v) \<and>
   (fieldFilter_Matches fieldPort v entry \<longleftrightarrow>
      Sprintf_d (uint (SrcPort entry)) = v \<or> Sprintf_d (uint (DstPort entry)) = v) \<and>
   (fieldFilter_Matches_r1 ''srcport'' v entry' \<longleftrightarrow>
      SrcPort entry' \<noteq> 0 \<and> Sprintf_d (uint (SrcPort entry')) = v) \<and>
   (fieldFilter_Matches_r1 ''sport'' v entry' \<longleftrightarrow>
      SrcPort entry' \<noteq> 0 \<and> Sprintf_d (uint (SrcPort entry')) = v) \<and>
   (fieldFilter_Matches_r1 ''dstport'' v entry' \<longleftrightarrow>
      DstPort entry' \<noteq> 0 \<and> Sprintf_d (uint (DstPort entry')) = v) \<and>
   (fieldFilter_Matches_r1 ''dport'' v entry' \<longleftrightarrow>
      DstPort entry' \<noteq> 0 \<and> Sprintf_d (uint (DstPort entry')) = v) \<and>
   (fieldFilter_Matches_r1 ''port'' v entry' \<longleftrightarrow>
      (SrcPort entry' \<noteq> 0 \<and> Sprintf_d (uint (SrcPort entry')) = v) \<or>
      (DstPort entry' \<noteq> 0 \<and> Sprintf_d (uint (DstPort entry')) = v))"
  by (auto simp: matchInt_def fieldFilter_Matches_r1_def word_greater_zero_iff)

text \<open>
  The claim as stated fails on the later revision: the filter \<open>srcport 0\<close> compiles to a
  source port match on the value \<open>0\<close>, and this matches a record whose source port
  is 0.
\<close>

theorem port_match_counterexample:
  "SrcPort icmpEntry = 0 \<and>
   Compile ''srcport 0'' = Inr (Some (fieldFilter fieldSrcPort ''0'')) \<and>
   Matches (fieldFilter fieldSrcPort ''0'') icmpEntry"
  by code_simp



subsection \<open>Precedence\<close>

lemma precedence_compile:
  "Compile ''src 192.168 and proto tcp or proto udp'' =
     Inr (Some (orFilter
        (andFilter (fieldFilter fieldSource ''192.168'') (fieldFilter fieldProtocol ''tcp''))
        (fieldFilter fieldProtocol ''udp'')))"
  by code_simp

lemma precedence_udpEntry:
  "matchStr ''udp'' (ProtoName udpEntry) \<and> \<not> matchStr ''192.168'' (Src udpEntry)"
  by code_simp

text \<open>
  Claim C6.  \<open>src 192.168 and proto tcp or proto udp\<close> compiles to the node
  \<open>(src 192.168 AND proto tcp) OR proto udp\<close>; on every record it matches exactly when
  the source has the prefix \<open>192.168\<close> and the protocol the prefix \<open>tcp\<close>, or the
  protocol has the prefix \<open>udp\<close> (prefixes without regard to case); and it differs from
  the right-grouped reading on some record.
\<close>

theorem precedence_left_grouped:
  "\<exists>node. Compile ''src 192.168 and proto tcp or proto udp'' = Inr (Some node) \<and>
     node = orFilter
        (andFilter (fieldFilter fieldSource ''192.168'') (fieldFilter fieldProtocol ''tcp''))
        (fieldFilter fieldProtocol ''udp'') \<and>
     (\<forall>entry. Matches node entry \<longleftrightarrow>
        (ciPrefix ''192.168'' (Src entry) \<and> ciPrefix ''tcp'' (ProtoName entry))
          \<or> ciPrefix ''udp'' (ProtoName entry)) \<and>
     (\<exists>entry. Matches node entry \<noteq>
        (ciPrefix ''192.168'' (Src entry)
           \<and> (ciPrefix ''tcp'' (ProtoName entry) \<or> ciPrefix ''udp'' (ProtoName entry))))"
proof -
  let ?node = "orFilter
        (andFilter (fieldFilter fieldSource ''192.168'') (fieldFilter fieldProtocol ''tcp''))
        (fieldFilter fieldProtocol ''udp'')"
  have sem: "\<forall>entry. Matches ?node entry \<longleftrightarrow>
        (ciPrefix ''192.168'' (Src entry) \<and> ciPrefix ''tcp'' (ProtoName entry))
          \<or> ciPrefix ''udp'' (ProtoName entry)"
    by (simp add: matchStr_iff)
  have "Matches ?node udpEntry \<noteq>
        (ciPrefix ''192.168'' (Src udpEntry)
           \<and> (ciPrefix ''tcp'' (ProtoName udpEntry) \<or> ciPrefix ''udp'' (ProtoName udpEntry)))"
    using precedence_udpEntry by (simp add: matchStr_iff [symmetric])
  then have diff: "\<exists>entry. Matches ?node entry \<noteq>
        (ciPrefix ''192.168'' (Src entry)
           \<and> (ciPrefix ''tcp'' (ProtoName entry) \<or> ciPrefix ''udp'' (ProtoName entry)))"
    by (rule exI)
  show ?thesis
    using precedence_compile sem diff by blast
qed

subsection \<open>Errors of the compiler\<close>

text \<open>
  Claim C8, at the input where the code departs from it: an expression with an unmatched
  closing parenthesis after a complete expression compiles without an error.
  \<open>parse\<close> returns what \<open>parseOr\<close> returns and never looks at the token that follows.
\<close>

theorem Compile_trailing_paren:
  "Compile ''src 192.168)'' = Inr (Some (fieldFilter fieldSource ''192.168''))"
  by code_simp

text \<open>
  The rest of the claim holds at its inputs: the empty expression gives no filter and no
  error; a field keyword without a value, an empty group, an unclosed group and a
  closing parenthesis in the place of an operand are errors.  Tokens after a complete
  expression are ignored, and \<open>not\<close> takes a primary, not another \<open>not\<close>.
\<close>

lemma Compile_errors:
  "Compile [] = Inr None"
  "Compile ''src and'' = Inl (ExpectedValue ''src'' ''and'')"
  "Compile ''()'' = Inl (UnexpectedToken '')'')"
  "Compile ''(src 192.168'' = Inl (ExpectedParenR [])"
  "Compile '')'' = Inl (UnexpectedToken '')'')"
  "Compile ''src'' = Inl (ExpectedValue ''src'' [])"
  by code_simp+

lemma Compile_accepts:
  "Compile ''a b'' = Inr (Some (anyFilter ''a''))"
  "Compile ''not not a'' = Inl (UnexpectedToken ''not'')"
  by code_simp+

section \<open>Properties of the log stream\<close>

subsection \<open>Parsing never panics and reports a failure once\<close>

lemma Scan_Some_shorter:
  "Scan sc = (Some l, sc') \<Longrightarrow> length (sc_rest sc') < length (sc_rest sc)"
  by (auto simp: Scan_def Let_def split: if_splits)

lemma Scan_Some_err:
  "Scan sc = (Some l, sc') \<Longrightarrow> sc_err sc' = sc_err sc \<and> \<not> sc_err sc"
  by (auto simp: Scan_def Let_def split: if_splits)

lemma IndexByte_bounds: "-1 \<le> IndexByte s c \<and> IndexByte s c < int (length s)"
  by (induction s) (auto simp: Let_def)

lemma Index_bounds:
  "Index s sub \<noteq> -1 \<Longrightarrow> 0 \<le> Index s sub \<and> Index s sub + int (length sub) \<le> int (length s)"
  by (induction s) (auto simp: Let_def HasPrefix_def split: if_splits)

lemma sliceFrom_Some:
  "0 \<le> lo \<Longrightarrow> lo \<le> int (length s) \<Longrightarrow> sliceFrom s lo = Some (drop (nat lo) s)"
  by (simp add: sliceFrom_def slice_def)

lemma fieldStart_range:
  "0 \<le> start \<Longrightarrow> start \<le> int (length csv) \<Longrightarrow>
     fieldStart csv k start = Some None \<or>
     (\<exists>st. fieldStart csv k start = Some (Some st) \<and> 0 \<le> st \<and> st \<le> int (length csv))"
proof (induction k arbitrary: start)
  case 0
  then show ?case by simp
next
  case (Suc k)
  let ?rest = "drop (nat start) csv"
  let ?idx = "IndexByte ?rest (CHR '','')"
  have b: "-1 \<le> ?idx \<and> ?idx < int (length ?rest)"
    by (rule IndexByte_bounds)
  show ?case
  proof (cases "?idx = -1")
    case True
    then show ?thesis
      using Suc.prems by (simp add: sliceFrom_Some)
  next
    case False
    have "0 \<le> start + (?idx + 1)" "start + (?idx + 1) \<le> int (length csv)"
      using b False Suc.prems by auto
    from Suc.IH [OF this] show ?thesis
      using False Suc.prems by (simp add: sliceFrom_Some)
  qed
qed

lemma extractCSVField_total: "\<exists>f ok. extractCSVField csv k = Some (f, ok)"
proof -
  from fieldStart_range [of 0 csv k]
  consider "fieldStart csv k 0 = Some None"
    | st where "fieldStart csv k 0 = Some (Some st)" "0 \<le> st" "st \<le> int (length csv)"
    by auto
  then show ?thesis
  proof cases
    case 1
    then show ?thesis by (auto simp: extractCSVField_def)
  next
    case 2
    let ?rest = "drop (nat st) csv"
    have b: "-1 \<le> IndexByte ?rest (CHR '','') \<and> IndexByte ?rest (CHR '','') < int (length ?rest)"
      by (rule IndexByte_bounds)
    then show ?thesis
      using 2 by (auto simp: extractCSVField_def sliceFrom_Some slice_def Let_def)
  qed
qed

lemma outcome_diag: "outcome s (diag s msg)"
  by (auto simp: outcome_def diag_def)

lemma outcome_Some: "outcome s (Some (Some e, s))"
  by (simp add: outcome_def)

lemma outcome_extract:
  "(\<And>f ok. outcome s (g (f, ok))) \<Longrightarrow> outcome s (Option.bind (extractCSVField csv k) g)"
  using extractCSVField_total [of csv k] by auto

lemma parsePorts_outcome: "outcome s (parsePorts s csv entry tag a b ln)"
  unfolding parsePorts_def
  by (auto intro!: outcome_extract outcome_diag outcome_Some split: option.splits)

lemma parseIP_outcome: "outcome s (parseIP s csv entry v a b c icmp d ln)"
  unfolding parseIP_def Let_def
  by (auto intro!: outcome_extract outcome_diag outcome_Some parsePorts_outcome)

lemma parseCSV_outcome: "outcome s (parseCSV s csv ts ln)"
  unfolding parseCSV_def Let_def
  by (auto intro!: outcome_extract outcome_diag parseIP_outcome split: option.splits)

lemma parseLine_outcome: "outcome s (parseLine tp s line ln)"
proof -
  let ?a = "IndexByte line (CHR '' '')"
  let ?rest = "drop (nat (?a + 1)) line"
  let ?b = "IndexByte ?rest (CHR '' '')"
  have ba: "-1 \<le> ?a \<and> ?a < int (length line)" by (rule IndexByte_bounds)
  have bb: "-1 \<le> ?b \<and> ?b < int (length ?rest)" by (rule IndexByte_bounds)
  have s1: "sliceFrom line (?a + 1) = Some ?rest"
    using ba by (simp add: sliceFrom_Some)
  have s2: "?a \<noteq> -1 \<Longrightarrow> ?b \<noteq> -1 \<Longrightarrow> \<exists>ts. slice line (?a + 1) (?b + (?a + 1)) = Some ts"
    using ba bb by (auto simp: slice_def)
  have s3: "Index line ''] '' \<noteq> -1 \<Longrightarrow> \<exists>csv. sliceFrom line (Index line ''] '' + 2) = Some csv"
    using Index_bounds [of line "''] ''"] by (auto simp: sliceFrom_def slice_def)
  show ?thesis
  proof (cases "?a = -1 \<or> ?b = -1")
    case True
    then show ?thesis
      unfolding parseLine_def Let_def by (auto simp: s1 intro: outcome_diag)
  next
    case False
    then obtain ts where ts: "slice line (?a + 1) (?b + (?a + 1)) = Some ts"
      using s2 by auto
    show ?thesis
    proof (cases "tp ts")
      case (Inl err)
      then show ?thesis
        unfolding parseLine_def Let_def using False by (simp add: s1 ts outcome_diag)
    next
      case (Inr t)
      show ?thesis
      proof (cases "Index line ''] '' = -1")
        case True
        then show ?thesis
          unfolding parseLine_def Let_def using False Inr by (simp add: s1 ts outcome_diag)
      next
        case nf: False
        then obtain csv where "sliceFrom line (Index line ''] '' + 2) = Some csv"
          using s3 by auto
        then show ?thesis
          unfolding parseLine_def Let_def using False Inr nf
          by (simp add: s1 ts parseCSV_outcome)
      qed
    qed
  qed
qed

subsection \<open>The loops terminate\<close>

termination buildLoop
proof (relation "measure (\<lambda>(tp, sc, s, ln, offset, valid). length (sc_rest sc))", goal_cases)
  case 1
  show ?case by simp
next
  case (2 tp sc s ln offset valid x y l)
  then show ?case
    using Scan_Some_shorter [of sc l y] by simp
next
  case (3 tp sc s ln offset valid x y l z e s')
  then show ?case
    using Scan_Some_shorter [of sc l y] by simp
qed

lemma parseLine_scanner:
  "parseLine tp s line ln = Some (r, s') \<Longrightarrow> scanner s' = scanner s"
  using parseLine_outcome [of s tp line ln] by (auto simp: outcome_def addError_def)

termination Next
proof (relation "measure (\<lambda>(tp, s). length (sc_rest (scanner s)))", goal_cases)
  case 1
  show ?case by simp
next
  case (2 tp s x y l s1 z r s2)
  then show ?case
    using Scan_Some_shorter [of "scanner s" l y] parseLine_scanner [of tp s1 l "lineNum s1" r s2]
    by simp
qed

termination allLines
proof (relation "measure (\<lambda>sc. length (sc_rest sc))", goal_cases)
  case 1
  show ?case by simp
next
  case (2 sc x y l)
  then show ?case
    using Scan_Some_shorter [of sc l y] by simp
qed

lemma Next_Some_shorter:
  "Next tp s = Some (Some e, s') \<Longrightarrow>
     length (sc_rest (scanner s')) < length (sc_rest (scanner s))"
proof (induction tp s rule: Next.induct)
  case (1 tp s)
  show ?case
  proof (cases "Scan (scanner s)")
    case (Pair tok sc1)
    show ?thesis
    proof (cases tok)
      case None
      then show ?thesis using Pair "1.prems" by simp
    next
      case (Some l)
      let ?s1 = "s\<lparr>scanner := sc1, lineNum := lineNum s + 1\<rparr>"
      have sh: "length (sc_rest sc1) < length (sc_rest (scanner s))"
        using Pair Some Scan_Some_shorter by simp
      from parseLine_outcome [of ?s1 tp l "lineNum ?s1"]
      consider e' where "parseLine tp ?s1 l (lineNum ?s1) = Some (Some e', ?s1)"
        | msg where "parseLine tp ?s1 l (lineNum ?s1) = Some (None, addError ?s1 msg)"
        by (auto simp: outcome_def)
      then show ?thesis
      proof cases
        case 1
        then show ?thesis
          using Pair Some "1.prems" sh by (auto simp: Let_def)
      next
        case 2
        have nx: "Next tp s = Next tp (addError ?s1 msg)"
          using Pair Some 2 by (simp add: Let_def)
        have "length (sc_rest (scanner s')) < length (sc_rest (scanner (addError ?s1 msg)))"
          using "1.IH" [OF Pair [symmetric] Some refl 2 refl refl] "1.prems" nx by simp
        then show ?thesis
          using sh by (simp add: addError_def split: if_splits)
      qed
    qed
  qed
qed

termination drain
proof (relation "measure (\<lambda>(tp, s). length (sc_rest (scanner s)))", goal_cases)
  case 1
  show ?case by simp
next
  case (2 tp s x2 x y e)
  then show ?case
    using Next_Some_shorter [of tp s e y] by simp
qed

subsection \<open>The diagnostics are capped\<close>

lemma take_take_append: "take n (take n xs @ ys) = take n (xs @ ys)"
  by (cases "n \<le> length xs") (simp_all add: min_def)

lemma errors_addError:
  "length (errors s) \<le> MaxErrorsInMemory \<Longrightarrow>
     errors (addError s msg) = take MaxErrorsInMemory (errors s @ [msg])"
  by (auto simp: addError_def)

lemma foldl_addError_errors:
  "length (errors s) \<le> MaxErrorsInMemory \<Longrightarrow>
     errors (foldl addError s msgs) = take MaxErrorsInMemory (errors s @ msgs)"
proof (induction msgs arbitrary: s)
  case Nil
  then show ?case by simp
next
  case (Cons m msgs)
  have le: "length (errors (addError s m)) \<le> MaxErrorsInMemory"
    using Cons.prems by (simp add: errors_addError)
  have "errors (foldl addError (addError s m) msgs)
      = take MaxErrorsInMemory (take MaxErrorsInMemory (errors s @ [m]) @ msgs)"
    using Cons.IH [OF le] errors_addError [OF Cons.prems, of m] by (simp only:)
  also have "\<dots> = take MaxErrorsInMemory ((errors s @ [m]) @ msgs)"
    by (rule take_take_append)
  finally show ?case
    by (simp del: take_append)
qed

lemma grows_refl: "length (errors s) \<le> MaxErrorsInMemory \<Longrightarrow> errors s' = errors s \<Longrightarrow> grows s s'"
  unfolding grows_def by (rule exI [of _ "[]"]) simp

lemma grows_trans: "grows s s1 \<Longrightarrow> grows s1 s2 \<Longrightarrow> grows s s2"
  unfolding grows_def
proof -
  assume "\<exists>ms. errors s1 = take MaxErrorsInMemory (errors s @ ms)"
    and "\<exists>ms. errors s2 = take MaxErrorsInMemory (errors s1 @ ms)"
  then obtain a b where a: "errors s1 = take MaxErrorsInMemory (errors s @ a)"
    and b: "errors s2 = take MaxErrorsInMemory (errors s1 @ b)" by blast
  have "errors s2 = take MaxErrorsInMemory (take MaxErrorsInMemory (errors s @ a) @ b)"
    using a b by (simp only:)
  also have "\<dots> = take MaxErrorsInMemory ((errors s @ a) @ b)"
    by (rule take_take_append)
  finally have "errors s2 = take MaxErrorsInMemory (errors s @ (a @ b))"
    by (simp del: take_append)
  then show "\<exists>ms. errors s2 = take MaxErrorsInMemory (errors s @ ms)" ..
qed

lemma grows_length: "grows s s' \<Longrightarrow> length (errors s') \<le> MaxErrorsInMemory"
  by (auto simp: grows_def)

lemma parseLine_grows:
  assumes "length (errors s) \<le> MaxErrorsInMemory"
  shows "\<exists>r s'. parseLine tp s line ln = Some (r, s') \<and> grows s s'"
proof -
  from parseLine_outcome [of s tp line ln]
  consider e where "parseLine tp s line ln = Some (Some e, s)"
    | msg where "parseLine tp s line ln = Some (None, addError s msg)"
    by (auto simp: outcome_def)
  then show ?thesis
  proof cases
    case 1
    then show ?thesis using assms by (auto intro: grows_refl)
  next
    case 2
    have "grows s (addError s msg)"
      unfolding grows_def using errors_addError [OF assms] by blast
    with 2 show ?thesis by auto
  qed
qed

lemma buildLoop_grows:
  "length (errors s) \<le> MaxErrorsInMemory \<Longrightarrow>
     \<exists>sc' s' v'. buildLoop tp sc s ln off v = Some (sc', s', v') \<and> grows s s'"
proof (induction tp sc s ln off v rule: buildLoop.induct)
  case (1 tp sc s ln off v)
  show ?case
  proof (cases "Scan sc")
    case (Pair tok sc1)
    show ?thesis
    proof (cases tok)
      case None
      then show ?thesis
        using Pair "1.prems" by (auto intro: grows_refl)
    next
      case (Some l)
      from parseLine_grows [OF "1.prems", of tp l ln]
      obtain r s1 where p: "parseLine tp s l ln = Some (r, s1)" and g: "grows s s1"
        by blast
      show ?thesis
      proof (cases r)
        case None
        have le: "length (errors s1) \<le> MaxErrorsInMemory"
          using g by (rule grows_length)
        from "1.IH"(1) [OF Pair [symmetric] Some p [unfolded None] refl refl le]
        obtain sc' s' v' where
          "buildLoop tp sc1 s1 (ln + 1) (off + (int (length l) + 1)) v = Some (sc', s', v')"
          "grows s1 s'" by blast
        then show ?thesis
          using Pair Some p None g by (auto intro: grows_trans)
      next
        case (Some e)
        let ?s = "s1\<lparr>index := index s1 @ [\<lparr>fo_line = v, fo_offset = off\<rparr>]\<rparr>"
        have le: "length (errors ?s) \<le> MaxErrorsInMemory"
          using g grows_length by simp
        have g2: "grows s ?s"
          using g by (simp add: grows_def)
        from "1.IH"(2) [OF Pair [symmetric] \<open>tok = Some l\<close> p [unfolded Some] refl refl le]
        obtain sc' s' v' where
          "buildLoop tp sc1 ?s (ln + 1) (off + (int (length l) + 1)) (v + 1) = Some (sc', s', v')"
          "grows ?s s'" by blast
        then show ?thesis
          using Pair \<open>tok = Some l\<close> p Some g2 by (auto intro: grows_trans)
      qed
    qed
  qed
qed


lemma Next_grows:
  "length (errors s) \<le> MaxErrorsInMemory \<Longrightarrow>
     \<exists>r s'. Next tp s = Some (r, s') \<and> grows s s'"
proof (induction tp s rule: Next.induct)
  case (1 tp s)
  show ?case
  proof (cases "Scan (scanner s)")
    case (Pair tok sc1)
    show ?thesis
    proof (cases tok)
      case None
      then show ?thesis
        using Pair "1.prems" by (auto intro: grows_refl)
    next
      case (Some l)
      let ?s1 = "s\<lparr>scanner := sc1, lineNum := lineNum s + 1\<rparr>"
      have le1: "length (errors ?s1) \<le> MaxErrorsInMemory"
        using "1.prems" by simp
      have g1: "grows s ?s1"
        using "1.prems" by (auto intro: grows_refl)
      from parseLine_grows [OF le1, of tp l "lineNum ?s1"]
      obtain r s2 where p: "parseLine tp ?s1 l (lineNum ?s1) = Some (r, s2)"
        and g: "grows ?s1 s2"
        by blast
      show ?thesis
      proof (cases r)
        case None
        have le: "length (errors s2) \<le> MaxErrorsInMemory"
          using g by (rule grows_length)
        from "1.IH" [OF Pair [symmetric] Some refl p [unfolded None] refl refl le]
        obtain r' s' where "Next tp s2 = Some (r', s')" "grows s2 s'" by blast
        then show ?thesis
          using Pair Some p None g g1 by (auto simp: Let_def intro: grows_trans)
      next
        case (Some e)
        then show ?thesis
          using Pair \<open>tok = Some l\<close> p g g1 by (auto simp: Let_def intro: grows_trans)
      qed
    qed
  qed
qed

lemma BuildIndex_grows:
  assumes "length (errors s) \<le> MaxErrorsInMemory"
  shows "\<exists>r s'. BuildIndex tp s = Some (r, s') \<and> grows s s'"
proof -
  let ?s0 = "(reset s)\<lparr>index := []\<rparr>"
  have le: "length (errors ?s0) \<le> MaxErrorsInMemory"
    using assms by (simp add: reset_def)
  from buildLoop_grows [OF le, of tp "NewScanner (contents ?s0)" 0 0 0]
  obtain sc s1 n where b: "buildLoop tp (NewScanner (contents ?s0)) ?s0 0 0 0 = Some (sc, s1, n)"
    and g: "grows ?s0 s1" by blast
  have "grows s s1"
    using g by (simp add: grows_def reset_def)
  then show ?thesis
    using b by (auto simp: BuildIndex_def Let_def grows_def reset_def)
qed

text \<open>
  Claim C5.  The collection of diagnostics never holds more than 1000
  (\<open>MaxErrorsInMemory\<close>) entries: on a stream within the cap, any sequence of \<open>addError\<close>
  calls leaves the first 1000 of the old diagnostics followed by the new ones, in order
  (later ones are dropped, none is evicted or replaced); \<open>BuildIndex\<close> and \<open>Next\<close>
  return (they do not panic) and change the diagnostics in this way only.
\<close>

theorem diagnostics_capped:
  "length (errors s) \<le> MaxErrorsInMemory \<Longrightarrow>
     MaxErrorsInMemory = 1000 \<and>
     errors (foldl addError s msgs) = take MaxErrorsInMemory (errors s @ msgs) \<and>
     length (errors (foldl addError s msgs)) \<le> MaxErrorsInMemory \<and>
     (\<exists>r s'. BuildIndex tp s = Some (r, s') \<and> grows s s'
        \<and> length (errors s') \<le> MaxErrorsInMemory) \<and>
     (\<exists>r s'. Next tp s = Some (r, s') \<and> grows s s'
        \<and> length (errors s') \<le> MaxErrorsInMemory)"
proof -
  assume le: "length (errors s) \<le> MaxErrorsInMemory"
  have a: "errors (foldl addError s msgs) = take MaxErrorsInMemory (errors s @ msgs)"
    using le by (rule foldl_addError_errors)
  have b: "length (errors (foldl addError s msgs)) \<le> MaxErrorsInMemory"
    unfolding a by simp
  have c: "\<exists>r s'. BuildIndex tp s = Some (r, s') \<and> grows s s'
        \<and> length (errors s') \<le> MaxErrorsInMemory"
    using BuildIndex_grows [OF le, of tp] grows_length by blast
  have d: "\<exists>r s'. Next tp s = Some (r, s') \<and> grows s s'
        \<and> length (errors s') \<le> MaxErrorsInMemory"
    using Next_grows [OF le, of tp] grows_length by blast
  show ?thesis
    using a b c d by (simp add: MaxErrorsInMemory_def)
qed


theorem diagnostics_capped_witness:
  "length (errors (NewStream ''x'')) \<le> MaxErrorsInMemory \<and>
     errors (foldl addError (NewStream ''x'') [''a'', ''b'']) = [''a'', ''b''] \<and>
     (\<exists>r s'. BuildIndex utcTimestamp (NewStream ''x'') = Some (r, s')
        \<and> length (errors s') \<le> MaxErrorsInMemory)"
  using diagnostics_capped [of "NewStream ''x''" "[''a'', ''b'']" utcTimestamp]
  by (auto simp: NewStream_def MaxErrorsInMemory_def)

subsection \<open>The record of a line depends on the line only\<close>

lemma parsePorts_fst:
  "map_option fst (parsePorts s csv entry tag a b ln)
     = map_option fst (parsePorts s' csv entry tag' a b ln')"
  unfolding parsePorts_def diag_def
  by (auto split: Option.bind_splits prod.splits option.splits)

lemma parseIP_fst:
  "map_option fst (parseIP s csv entry v a b c icmp d ln)
     = map_option fst (parseIP s' csv entry v' a b c icmp d ln')"
  unfolding parseIP_def diag_def Let_def
  using parsePorts_fst [of s csv _ _ d "d + 1" ln s' _ ln']
  by (auto split: Option.bind_splits prod.splits option.splits)


lemma parseCSV_fst:
  "map_option fst (parseCSV s csv ts ln) = map_option fst (parseCSV s' csv ts ln')"
  unfolding parseCSV_def diag_def Let_def
  using parseIP_fst [of s csv _ "''v4''" 16 18 19 protoICMP 20 ln s' "''v4''" ln']
    parseIP_fst [of s csv _ "''v6''" 12 15 16 protoICMPv6 17 ln s' "''v6''" ln']
  by (auto split: Option.bind_splits prod.splits option.splits)

lemma parseLine_fst:
  "map_option fst (parseLine tp s line ln) = map_option fst (parseLine tp s' line ln')"
  unfolding parseLine_def diag_def Let_def
  using parseCSV_fst [of s _ _ ln s' ln']
  by (auto split: Option.bind_splits prod.splits option.splits sum.splits)

lemma parseLine_lineEntry:
  "(\<exists>e. lineEntry tp line = Some e \<and> parseLine tp s line ln = Some (Some e, s)) \<or>
   (\<exists>msg. lineEntry tp line = None \<and> parseLine tp s line ln = Some (None, addError s msg))"
proof -
  from parseLine_outcome [of "NewStream []" tp line 0]
  obtain r0 s0 where p0: "parseLine tp (NewStream []) line 0 = Some (r0, s0)"
    by (auto simp: outcome_def)
  then have le: "lineEntry tp line = r0"
    by (simp add: lineEntry_def)
  from parseLine_outcome [of s tp line ln]
  consider e where "parseLine tp s line ln = Some (Some e, s)"
    | msg where "parseLine tp s line ln = Some (None, addError s msg)"
    by (auto simp: outcome_def)
  then show ?thesis
  proof cases
    case 1
    then have "r0 = Some e"
      using parseLine_fst [of tp s line ln "NewStream []" 0] p0 by simp
    then show ?thesis using 1 le by simp
  next
    case 2
    then have "r0 = None"
      using parseLine_fst [of tp s line ln "NewStream []" 0] p0 by simp
    then show ?thesis using 2 le by auto
  qed
qed


subsection \<open>What the index and the sequential reads hold\<close>

lemma allLines_None: "Scan sc = (None, sc') \<Longrightarrow> allLines sc = []"
  by simp

lemma allLines_Some: "Scan sc = (Some l, sc') \<Longrightarrow> allLines sc = l # allLines sc'"
  by simp

declare allLines.simps [simp del]

lemma buildLoop_index:
  "\<exists>sc' s' v'. buildLoop tp sc s ln off v = Some (sc', s', v') \<and>
      index s' = index s @ indexFrom (lineEntry tp) (allLines sc) off v \<and>
      v' = v + int (length (indexFrom (lineEntry tp) (allLines sc) off v)) \<and>
      contents s' = contents s \<and> scanner s' = scanner s \<and> lineNum s' = lineNum s \<and>
      validLines s' = validLines s"
proof (induction tp sc s ln off v rule: buildLoop.induct)
  case (1 tp sc s ln off v)
  show ?case
  proof (cases "Scan sc")
    case (Pair tok sc1)
    show ?thesis
    proof (cases tok)
      case None
      then show ?thesis
        using Pair by (simp add: allLines_None)
    next
      case (Some l)
      have al: "allLines sc = l # allLines sc1"
        using Pair Some by (simp add: allLines_Some)
      from parseLine_lineEntry [of tp l s ln]
      consider e where "lineEntry tp l = Some e" "parseLine tp s l ln = Some (Some e, s)"
        | msg where "lineEntry tp l = None" "parseLine tp s l ln = Some (None, addError s msg)"
        by blast
      then show ?thesis
      proof cases
        case 1
        let ?s = "s\<lparr>index := index s @ [\<lparr>fo_line = v, fo_offset = off\<rparr>]\<rparr>"
        from "1.IH"(2) [OF Pair [symmetric] Some 1(2) refl refl]
        obtain sc' s' v' where
          b: "buildLoop tp sc1 ?s (ln + 1) (off + (int (length l) + 1)) (v + 1) = Some (sc', s', v')"
          and i: "index s' = index ?s @ indexFrom (lineEntry tp) (allLines sc1)
              (off + (int (length l) + 1)) (v + 1)"
          and n: "v' = v + 1 + int (length (indexFrom (lineEntry tp) (allLines sc1)
              (off + (int (length l) + 1)) (v + 1)))"
          and r: "contents s' = contents ?s" "scanner s' = scanner ?s" "lineNum s' = lineNum ?s"
            "validLines s' = validLines ?s"
          by blast
        show ?thesis
          using Pair Some 1 b i n r by (simp add: al)
      next
        case 2
        from "1.IH"(1) [OF Pair [symmetric] Some 2(2) refl refl]
        obtain sc' s' v' where
          b: "buildLoop tp sc1 (addError s msg) (ln + 1) (off + (int (length l) + 1)) v
                = Some (sc', s', v')"
          and i: "index s' = index (addError s msg) @ indexFrom (lineEntry tp) (allLines sc1)
              (off + (int (length l) + 1)) v"
          and n: "v' = v + int (length (indexFrom (lineEntry tp) (allLines sc1)
              (off + (int (length l) + 1)) v))"
          and r: "contents s' = contents (addError s msg)" "scanner s' = scanner (addError s msg)"
            "lineNum s' = lineNum (addError s msg)" "validLines s' = validLines (addError s msg)"
          by blast
        show ?thesis
          using Pair Some 2 b i n r by (simp add: al addError_def split: if_splits)
      qed
    qed
  qed
qed

lemma indexFrom_length: "length (indexFrom f ls off v) = length (List.map_filter f ls)"
  by (induction ls arbitrary: off v) (auto simp: List.map_filter_simps split: option.splits)

lemma indexFrom_lower: "x \<in> set (indexFrom f ls off v) \<Longrightarrow> off \<le> fo_offset x"
proof (induction ls arbitrary: off v)
  case Nil
  then show ?case by simp
next
  case (Cons l ls)
  then show ?case
    by (fastforce split: option.splits)
qed

lemma indexFrom_sorted: "sorted_wrt (<) (map fo_offset (indexFrom f ls off v))"
proof (induction ls arbitrary: off v)
  case Nil
  then show ?case by simp
next
  case (Cons l ls)
  show ?case
  proof (cases "f l")
    case None
    then show ?thesis using Cons.IH by simp
  next
    case (Some e)
    have "\<forall>x \<in> set (indexFrom f ls (off + (int (length l) + 1)) (v + 1)). off < fo_offset x"
      using indexFrom_lower [of _ f ls "off + (int (length l) + 1)" "v + 1"] by fastforce
    then show ?thesis using Some Cons.IH by simp
  qed
qed

lemma indexFrom_line:
  "i < length (indexFrom f ls off v) \<Longrightarrow> fo_line (indexFrom f ls off v ! i) = v + int i"
proof (induction ls arbitrary: off v i)
  case Nil
  then show ?case by simp
next
  case (Cons l ls)
  show ?case
  proof (cases "f l")
    case None
    then show ?thesis using Cons by simp
  next
    case (Some e)
    then show ?thesis using Cons by (cases i) auto
  qed
qed


declare buildLoop.simps [simp del] Next.simps [simp del] drain.simps [simp del]

lemma Next_allLines:
  "\<exists>r s'. Next tp s = Some (r, s') \<and> contents s' = contents s \<and> index s' = index s \<and>
     validLines s' = validLines s \<and>
     (case r of
        None \<Rightarrow> List.map_filter (lineEntry tp) (allLines (scanner s)) = []
      | Some e \<Rightarrow>
          List.map_filter (lineEntry tp) (allLines (scanner s))
            = e # List.map_filter (lineEntry tp) (allLines (scanner s')))"
proof (induction tp s rule: Next.induct)
  case (1 tp s)
  show ?case
  proof (cases "Scan (scanner s)")
    case (Pair tok sc1)
    show ?thesis
    proof (cases tok)
      case None
      then show ?thesis
        using Pair by (simp add: Next.simps [of tp s] allLines_None List.map_filter_simps)
    next
      case (Some l)
      let ?s1 = "s\<lparr>scanner := sc1, lineNum := lineNum s + 1\<rparr>"
      have al: "allLines (scanner s) = l # allLines sc1"
        using Pair Some by (simp add: allLines_Some)
      from parseLine_lineEntry [of tp l ?s1 "lineNum ?s1"]
      consider e where "lineEntry tp l = Some e"
          "parseLine tp ?s1 l (lineNum ?s1) = Some (Some e, ?s1)"
        | msg where "lineEntry tp l = None"
          "parseLine tp ?s1 l (lineNum ?s1) = Some (None, addError ?s1 msg)"
        by blast
      then show ?thesis
      proof cases
        case 1
        then show ?thesis
          using Pair Some by (simp add: Next.simps [of tp s] al Let_def List.map_filter_simps)
      next
        case 2
        have nx: "Next tp s = Next tp (addError ?s1 msg)"
          using Pair Some 2 by (simp add: Next.simps [of tp s] Let_def)
        have sc: "scanner (addError ?s1 msg) = sc1" "contents (addError ?s1 msg) = contents s"
          "index (addError ?s1 msg) = index s" "validLines (addError ?s1 msg) = validLines s"
          by (simp_all add: addError_def)
        from "1.IH" [OF Pair [symmetric] Some refl 2(2) refl refl]
        obtain r s' where ih: "Next tp (addError ?s1 msg) = Some (r, s')"
          "contents s' = contents (addError ?s1 msg)" "index s' = index (addError ?s1 msg)"
          "validLines s' = validLines (addError ?s1 msg)"
          "case r of
             None \<Rightarrow>
               List.map_filter (lineEntry tp) (allLines (scanner (addError ?s1 msg))) = []
           | Some e \<Rightarrow>
               List.map_filter (lineEntry tp) (allLines (scanner (addError ?s1 msg)))
                 = e # List.map_filter (lineEntry tp) (allLines (scanner s'))"
          by blast
        have mf: "List.map_filter (lineEntry tp) (allLines (scanner s))
            = List.map_filter (lineEntry tp) (allLines (scanner (addError ?s1 msg)))"
          using 2(1) by (simp add: al sc List.map_filter_simps)
        show ?thesis
          using ih unfolding nx mf sc by blast
      qed
    qed
  qed
qed

lemma drain_allLines:
  "drain tp s = Some (List.map_filter (lineEntry tp) (allLines (scanner s)))"
proof (induction tp s rule: drain.induct)
  case (1 tp s)
  from Next_allLines [of tp s]
  obtain r s' where n: "Next tp s = Some (r, s')"
    and c: "case r of
        None \<Rightarrow> List.map_filter (lineEntry tp) (allLines (scanner s)) = []
      | Some e \<Rightarrow>
          List.map_filter (lineEntry tp) (allLines (scanner s))
            = e # List.map_filter (lineEntry tp) (allLines (scanner s'))"
    by blast
  show ?case
  proof (cases r)
    case None
    then show ?thesis using n c by (simp add: drain.simps [of tp s])
  next
    case (Some e)
    from "1.IH" [OF n [unfolded Some] refl refl]
    show ?thesis using n c Some by (simp add: drain.simps [of tp s])
  qed
qed

lemma drain_fresh: "drain tp (NewStream bytes) = Some (validRecords tp bytes)"
  by (simp add: drain_allLines validRecords_def NewStream_def)

lemma BuildIndex_index:
  assumes "BuildIndex tp s = Some (None, s')"
  shows "index s' = indexFrom (lineEntry tp) (allLines (NewScanner (contents s))) 0 0"
    and "validLines s' = int (length (index s'))"
    and "contents s' = contents s"
    and "scanner s' = NewScanner (contents s)"
    and "lineNum s' = 0"
proof -
  let ?s0 = "(reset s)\<lparr>index := []\<rparr>"
  from buildLoop_index [of tp "NewScanner (contents ?s0)" ?s0 0 0 0]
  obtain sc s1 n where b: "buildLoop tp (NewScanner (contents ?s0)) ?s0 0 0 0 = Some (sc, s1, n)"
    and i: "index s1 = index ?s0 @ indexFrom (lineEntry tp) (allLines (NewScanner (contents ?s0))) 0 0"
    and n: "n = 0 + int (length (indexFrom (lineEntry tp) (allLines (NewScanner (contents ?s0))) 0 0))"
    and r: "contents s1 = contents ?s0"
    by blast
  have s': "s' = reset (s1\<lparr>validLines := n\<rparr>)"
    using assms b by (auto simp: BuildIndex_def Let_def split: if_splits)
  show "index s' = indexFrom (lineEntry tp) (allLines (NewScanner (contents s))) 0 0"
    using i by (simp add: s' reset_def)
  then show "validLines s' = int (length (index s'))"
    using n by (simp add: s' reset_def)
  show "contents s' = contents s"
    using r by (simp add: s' reset_def)
  show "scanner s' = NewScanner (contents s)"
    using r by (simp add: s' reset_def)
  show "lineNum s' = 0"
    by (simp add: s' reset_def)
qed

lemma Scan_small:
  assumes "\<not> sc_err sc" "int (length (sc_rest sc)) < MaxScanTokenSize" "Scan sc = (r, sc')"
  shows "\<not> sc_err sc' \<and> int (length (sc_rest sc')) < MaxScanTokenSize"
proof -
  have "length (takeWhile (\<lambda>c. c \<noteq> CHR 0x0A) (sc_rest sc)) \<le> length (sc_rest sc)"
    by (rule length_takeWhile_le)
  then show ?thesis
    using assms by (auto simp: Scan_def Let_def split: if_splits)
qed

lemma buildLoop_small:
  "\<not> sc_err sc \<Longrightarrow> int (length (sc_rest sc)) < MaxScanTokenSize \<Longrightarrow>
     buildLoop tp sc s ln off v = Some (sc', s', v') \<Longrightarrow> \<not> sc_err sc'"
proof (induction tp sc s ln off v rule: buildLoop.induct)
  case (1 tp sc s ln off v)
  show ?case
  proof (cases "Scan sc")
    case (Pair tok sc1)
    note sm = Scan_small [OF "1.prems"(1,2) Pair]
    show ?thesis
    proof (cases tok)
      case None
      then show ?thesis
        using Pair "1.prems"(3) sm by (simp add: buildLoop.simps [of tp sc])
    next
      case (Some l)
      from parseLine_lineEntry [of tp l s ln]
      consider e where "parseLine tp s l ln = Some (Some e, s)"
        | msg where "parseLine tp s l ln = Some (None, addError s msg)"
        by blast
      then show ?thesis
      proof cases
        case a: 1
        show ?thesis
          using "1.IH"(2) [OF Pair [symmetric] Some a refl refl] sm "1.prems"(3) Pair Some a
          by (simp add: buildLoop.simps [of tp sc])
      next
        case b: 2
        show ?thesis
          using "1.IH"(1) [OF Pair [symmetric] Some b refl refl] sm "1.prems"(3) Pair Some b
          by (simp add: buildLoop.simps [of tp sc])
      qed
    qed
  qed
qed

lemma BuildIndex_small:
  assumes "int (length (contents s)) < MaxScanTokenSize"
  shows "\<exists>s'. BuildIndex tp s = Some (None, s')"
proof -
  let ?s0 = "(reset s)\<lparr>index := []\<rparr>"
  from buildLoop_index [of tp "NewScanner (contents ?s0)" ?s0 0 0 0]
  obtain sc s1 n where b: "buildLoop tp (NewScanner (contents ?s0)) ?s0 0 0 0 = Some (sc, s1, n)"
    by blast
  have "\<not> sc_err sc"
    using buildLoop_small [OF _ _ b] assms by (simp add: NewScanner_def reset_def)
  then show ?thesis
    using b by (simp add: BuildIndex_def Let_def)
qed

lemma Next_first:
  "map_option fst (Next tp s) =
     Some (case List.map_filter (lineEntry tp) (allLines (scanner s)) of
             [] \<Rightarrow> None | e # es \<Rightarrow> Some e)"
  using Next_allLines [of tp s] by (auto split: option.splits)

lemma seekNext_indexed:
  assumes "BuildIndex tp s = Some (None, s')" "0 \<le> n" "n < int (length (index s'))"
  shows "seekNext tp s' n =
           Some (Inr (firstRecord tp (drop (nat (fo_offset (index s' ! nat n))) (contents s))))"
proof -
  note ix = BuildIndex_index [OF assms(1)]
  have "fo_offset (index s' ! nat n) \<in> fo_offset ` set (index s')"
    using assms(2,3) by simp
  then obtain x where x: "x \<in> set (index s')" "fo_offset x = fo_offset (index s' ! nat n)"
    by auto
  have nonneg: "0 \<le> fo_offset (index s' ! nat n)"
    using indexFrom_lower [of x "lineEntry tp" _ 0 0] x ix(1) by simp
  have hi: "hasIndex s'"
    using assms(2,3) by (cases "index s'") (simp_all add: hasIndex_def)
  let ?s2 = "s'\<lparr>scanner := NewScanner (drop (nat (fo_offset (index s' ! nat n))) (contents s')),
      lineNum := n\<rparr>"
  have sk: "SeekToLine s' n = (None, ?s2)"
    using hi assms(2,3) nonneg by (simp add: SeekToLine_def Let_def)
  show ?thesis
    using sk Next_first [of tp ?s2] ix(3)
    by (simp add: seekNext_def firstRecord_def validRecords_def map_option.compositionality
        o_def)
qed


subsection \<open>The record of a line, read off the line format\<close>

lemma splitOn_not_Nil: "splitOn c s \<noteq> []"
  by (induction s) (auto split: list.splits)
























subsection \<open>The index\<close>

lemma mixedLog_small: "int (length mixedLog) < MaxScanTokenSize"
  by code_simp

lemma mixedLog_records: "validRecords utcTimestamp mixedLog = [udpRecord, icmpRecord]"
  by code_simp

lemma mixedLog_index:
  "indexFrom (lineEntry utcTimestamp) (allLines (NewScanner mixedLog)) 0 0
     = [\<lparr>fo_line = 0, fo_offset = 0\<rparr>, \<lparr>fo_line = 1, fo_offset = 158\<rparr>]"
  by code_simp

lemma index_invariant_len:
  "BuildIndex tp s = Some (None, s') \<Longrightarrow>
     length (index s') = length (validRecords tp (contents s))"
  using BuildIndex_index(1) [of tp s s'] by (simp add: indexFrom_length validRecords_def)

text \<open>
  Claim C7.  After every successful \<open>BuildIndex\<close> the byte offsets of the index
  strictly increase with the ordinal, the entry at position \<open>i\<close> carries the ordinal
  \<open>i\<close>, and the index has as many entries as the file has valid records.
\<close>

theorem index_invariant:
  "BuildIndex tp s = Some (None, s') \<Longrightarrow>
     (\<forall>i j. i < j \<and> j < length (index s')
        \<longrightarrow> fo_offset (index s' ! i) < fo_offset (index s' ! j)) \<and>
     (\<forall>i. i < length (index s') \<longrightarrow> fo_line (index s' ! i) = int i) \<and>
     length (index s') = length (validRecords tp (contents s))"
proof -
  assume b: "BuildIndex tp s = Some (None, s')"
  note ix = BuildIndex_index(1) [OF b]
  have srt: "sorted_wrt (<) (map fo_offset (index s'))"
    unfolding ix by (rule indexFrom_sorted)
  have a: "\<forall>i j. i < j \<and> j < length (index s')
        \<longrightarrow> fo_offset (index s' ! i) < fo_offset (index s' ! j)"
    using srt by (auto simp: sorted_wrt_iff_nth_less)
  have c: "\<forall>i. i < length (index s') \<longrightarrow> fo_line (index s' ! i) = int i"
    unfolding ix using indexFrom_line [of _ "lineEntry tp" _ 0 0] by simp
  have d: "length (index s') = length (validRecords tp (contents s))"
    unfolding ix by (simp add: indexFrom_length validRecords_def)
  show ?thesis using a c d by blast
qed

theorem index_invariant_witness:
  "\<exists>s'. BuildIndex utcTimestamp (NewStream mixedLog) = Some (None, s') \<and>
     index s' = [\<lparr>fo_line = 0, fo_offset = 0\<rparr>, \<lparr>fo_line = 1, fo_offset = 158\<rparr>] \<and>
     fo_offset (index s' ! 0) < fo_offset (index s' ! 1) \<and>
     length (index s') = length (validRecords utcTimestamp mixedLog)"
proof -
  have "int (length (contents (NewStream mixedLog))) < MaxScanTokenSize"
    using mixedLog_small by (simp add: NewStream_def)
  from BuildIndex_small [OF this, of utcTimestamp]
  obtain s' where b: "BuildIndex utcTimestamp (NewStream mixedLog) = Some (None, s')"
    by blast
  have ix: "index s' = [\<lparr>fo_line = 0, fo_offset = 0\<rparr>, \<lparr>fo_line = 1, fo_offset = 158\<rparr>]"
    using BuildIndex_index(1) [OF b] mixedLog_index by (simp add: NewStream_def)
  show ?thesis
    using index_invariant [OF b] b ix by (simp add: NewStream_def)
qed

subsection \<open>The count of lines\<close>

text \<open>
  Claim C2, as amended.  \<open>TotalLines\<close> is \<open>-1\<close> on a fresh stream.  After a successful
  \<open>BuildIndex\<close> it is the number of records that repeated calls of \<open>Next\<close> on a fresh
  stream over the same file return, when that number is positive, and \<open>-1\<close> when the
  file has no valid record: an empty index counts as no index.  The revision that reads
  the length of the index agrees.
\<close>

theorem TotalLines_count:
  "BuildIndex tp (NewStream bytes) = Some (None, s') \<Longrightarrow>
     TotalLines (NewStream bytes) = -1 \<and>
     (\<exists>rs. drain tp (NewStream bytes) = Some rs \<and>
        TotalLines s' = (if rs = [] then -1 else int (length rs)) \<and>
        TotalLines_len s' = TotalLines s')"
proof -
  assume b: "BuildIndex tp (NewStream bytes) = Some (None, s')"
  note ix = BuildIndex_index [OF b]
  have len: "length (index s') = length (validRecords tp bytes)"
    using index_invariant_len [OF b] by (simp add: NewStream_def)
  have a: "TotalLines (NewStream bytes) = -1"
    by (simp add: TotalLines_def hasIndex_def NewStream_def)
  have c: "TotalLines s' = (if validRecords tp bytes = [] then -1
      else int (length (validRecords tp bytes)))"
    using ix(2) len by (auto simp: TotalLines_def hasIndex_def)
  have d: "TotalLines_len s' = TotalLines s'"
    using ix(2) by (auto simp: TotalLines_def TotalLines_len_def hasIndex_def Let_def)
  show ?thesis
    using a c d drain_fresh [of tp bytes] by simp
qed


theorem TotalLines_count_witness:
  "\<exists>s'. BuildIndex utcTimestamp (NewStream mixedLog) = Some (None, s') \<and>
     drain utcTimestamp (NewStream mixedLog) = Some [udpRecord, icmpRecord] \<and>
     TotalLines s' = 2"
proof -
  have "int (length (contents (NewStream mixedLog))) < MaxScanTokenSize"
    using mixedLog_small by (simp add: NewStream_def)
  from BuildIndex_small [OF this, of utcTimestamp]
  obtain s' where b: "BuildIndex utcTimestamp (NewStream mixedLog) = Some (None, s')"
    by blast
  have d: "drain utcTimestamp (NewStream mixedLog) = Some [udpRecord, icmpRecord]"
    by (simp add: drain_fresh mixedLog_records)
  show ?thesis
    using TotalLines_count [OF b] b d by auto
qed


text \<open>
  The claim as stated fails on a file without a valid record: the index is built, no
  call of \<open>Next\<close> returns a record, and \<open>TotalLines\<close> is \<open>-1\<close>, not 0.
\<close>

theorem TotalLines_count_counterexample:
  "BuildIndex utcTimestamp (NewStream garbageLog) = Some (None, garbageIndexed) \<and>
   drain utcTimestamp (NewStream garbageLog) = Some [] \<and>
   TotalLines garbageIndexed = -1"
  by code_simp

subsection \<open>Seeking in a file with carriage returns\<close>

lemma crlfLog_small: "int (length crlfLog) < MaxScanTokenSize"
  by code_simp

lemma crlfLog_records: "validRecords utcTimestamp crlfLog = [udpRecord, icmpRecord]"
  by code_simp

lemma crlfLog_index:
  "indexFrom (lineEntry utcTimestamp) (allLines (NewScanner crlfLog)) 0 0
     = [\<lparr>fo_line = 0, fo_offset = 150\<rparr>, \<lparr>fo_line = 1, fo_offset = 300\<rparr>]"
  by code_simp

lemma crlfLog_at_300: "firstRecord utcTimestamp (drop 300 crlfLog) = Some udpRecord"
  by code_simp

lemma records_differ: "udpRecord \<noteq> icmpRecord"
  by code_simp

text \<open>
  Claim C1, at an input where the code departs from it.  \<open>BuildIndex\<close> adds to the
  offset the length of the line as the scanner returns it, and one for the newline; the
  scanner has dropped the carriage return before the newline, so every such line moves
  the recorded offsets one byte before the true ones.  In the file \<open>crlfLog\<close> the
  offset recorded for the second valid record is the start of the first: after
  \<open>BuildIndex\<close>, \<open>SeekToLine(1)\<close> and one \<open>Next\<close> return the first record, while
  the record with ordinal 1 in sequential reading is the second.
\<close>

theorem seek_after_crlf:
  "map_option (\<lambda>(err, s'). (err, seekNext utcTimestamp s' 1))
       (BuildIndex utcTimestamp (NewStream crlfLog))
     = Some (None, Some (Inr (Some udpRecord))) \<and>
   map_option (\<lambda>rs. rs ! 1) (drain utcTimestamp (NewStream crlfLog)) = Some icmpRecord \<and>
   udpRecord \<noteq> icmpRecord"
proof -
  have "int (length (contents (NewStream crlfLog))) < MaxScanTokenSize"
    using crlfLog_small by (simp add: NewStream_def)
  from BuildIndex_small [OF this, of utcTimestamp]
  obtain s' where b: "BuildIndex utcTimestamp (NewStream crlfLog) = Some (None, s')"
    by blast
  have ix: "index s' = [\<lparr>fo_line = 0, fo_offset = 150\<rparr>, \<lparr>fo_line = 1, fo_offset = 300\<rparr>]"
    using BuildIndex_index(1) [OF b] crlfLog_index by (simp add: NewStream_def)
  have "seekNext utcTimestamp s' 1 = Some (Inr (Some udpRecord))"
    using seekNext_indexed [OF b, of 1] crlfLog_at_300 by (simp add: ix NewStream_def)
  then show ?thesis
    using b records_differ by (simp add: drain_fresh crlfLog_records)
qed

end
